theory Spec2Isabelle
  imports Main "HOL-Library.Sublist" "HOL-Library.Multiset"
begin

section \<open>Go strings\<close>

definition HasPrefix :: "string \<Rightarrow> string \<Rightarrow> bool" where
  "HasPrefix s p = prefix p s"

definition TrimPrefix :: "string \<Rightarrow> string \<Rightarrow> string" where
  "TrimPrefix s p = (if HasPrefix s p then drop (length p) s else s)"

fun Index :: "string \<Rightarrow> string \<Rightarrow> nat option" where
  "Index [] sep = (if sep = [] then Some 0 else None)"
| "Index (c # cs) sep =
     (if prefix sep (c # cs) then Some 0 else map_option Suc (Index cs sep))"

definition Contains :: "string \<Rightarrow> string \<Rightarrow> bool" where
  "Contains s substr = (Index s substr \<noteq> None)"

lemma Index_bound: "Index s sep = Some i \<Longrightarrow> i + length sep \<le> length s"
proof (induction s arbitrary: i)
  case Nil
  then show ?case by (simp split: if_splits)
next
  case (Cons c cs)
  show ?case
  proof (cases "prefix sep (c # cs)")
    case True
    with Cons.prems show ?thesis by (auto dest: prefix_length_le)
  next
    case False
    with Cons.prems obtain j where "Index cs sep = Some j" "i = Suc j" by auto
    with Cons.IH show ?thesis by fastforce
  qed
qed

function Split :: "string \<Rightarrow> string \<Rightarrow> string list" where
  "Split s sep =
     (if sep = [] then map (\<lambda>c. [c]) s
      else case Index s sep of
             None \<Rightarrow> [s]
           | Some i \<Rightarrow> take i s # Split (drop (i + length sep) s) sep)"
  by pat_completeness auto
termination
proof (relation "measure (\<lambda>(s, sep). length s)")
  show "wf (measure (\<lambda>(s, sep). length s))" by simp
next
  fix s sep :: string and i :: nat
  assume a: "sep \<noteq> []" "Index s sep = Some i"
  from a(2) have "i + length sep \<le> length s" by (rule Index_bound)
  moreover from a(1) have "0 < length sep" by simp
  ultimately have "length s - (i + length sep) < length s" by arith
  then show "((drop (i + length sep) s, sep), (s, sep)) \<in> measure (\<lambda>(s, sep). length s)"
    by simp
qed

declare Split.simps [simp del]

fun Join :: "string list \<Rightarrow> string \<Rightarrow> string" where
  "Join [] sep = []"
| "Join [x] sep = x"
| "Join (x # y # ys) sep = x @ sep @ Join (y # ys) sep"

text \<open>White space as \<^verbatim>\<open>unicode.IsSpace\<close> sees it, in UTF-8.\<close>

definition spaceEncodings :: "string list" where
  "spaceEncodings =
     [[CHR 0x09], [CHR 0x0A], [CHR 0x0B], [CHR 0x0C], [CHR 0x0D], [CHR 0x20],
      [CHR 0xC2, CHR 0x85], [CHR 0xC2, CHR 0xA0],
      [CHR 0xE1, CHR 0x9A, CHR 0x80],
      [CHR 0xE2, CHR 0x80, CHR 0x80], [CHR 0xE2, CHR 0x80, CHR 0x81],
      [CHR 0xE2, CHR 0x80, CHR 0x82], [CHR 0xE2, CHR 0x80, CHR 0x83],
      [CHR 0xE2, CHR 0x80, CHR 0x84], [CHR 0xE2, CHR 0x80, CHR 0x85],
      [CHR 0xE2, CHR 0x80, CHR 0x86], [CHR 0xE2, CHR 0x80, CHR 0x87],
      [CHR 0xE2, CHR 0x80, CHR 0x88], [CHR 0xE2, CHR 0x80, CHR 0x89],
      [CHR 0xE2, CHR 0x80, CHR 0x8A],
      [CHR 0xE2, CHR 0x80, CHR 0xA8], [CHR 0xE2, CHR 0x80, CHR 0xA9],
      [CHR 0xE2, CHR 0x80, CHR 0xAF], [CHR 0xE2, CHR 0x81, CHR 0x9F],
      [CHR 0xE3, CHR 0x80, CHR 0x80]]"

definition spaceAt :: "string list \<Rightarrow> string \<Rightarrow> nat" where
  "spaceAt encs s = (case find (\<lambda>e. prefix e s) encs of None \<Rightarrow> 0 | Some e \<Rightarrow> length e)"

function trimFront :: "string list \<Rightarrow> string \<Rightarrow> string" where
  "trimFront encs s =
     (if spaceAt encs s = 0 then s else trimFront encs (drop (spaceAt encs s) s))"
  by pat_completeness auto
termination
proof (relation "measure (\<lambda>(encs, s). length s)")
  show "wf (measure (\<lambda>(encs, s). length s))" by simp
next
  fix encs :: "string list" and s :: string
  assume a: "spaceAt encs s \<noteq> 0"
  then obtain e where e: "find (\<lambda>e. prefix e s) encs = Some e" "spaceAt encs s = length e"
    by (auto simp: spaceAt_def split: option.splits)
  then have "prefix e s" by (auto simp: find_Some_iff)
  with a e have "s \<noteq> []" by auto
  with a show "((encs, drop (spaceAt encs s) s), (encs, s)) \<in> measure (\<lambda>(encs, s). length s)"
    by simp
qed

declare trimFront.simps [simp del]

definition TrimLeftSpace :: "string \<Rightarrow> string" where
  "TrimLeftSpace s = trimFront spaceEncodings s"

definition TrimRightSpace :: "string \<Rightarrow> string" where
  "TrimRightSpace s = rev (trimFront (map rev spaceEncodings) (rev s))"

definition TrimSpace :: "string \<Rightarrow> string" where
  "TrimSpace s = TrimRightSpace (TrimLeftSpace s)"

subsection \<open>Decimal numbers\<close>

definition isDigit :: "char \<Rightarrow> bool" where
  "isDigit c = (48 \<le> (of_char c :: nat) \<and> (of_char c :: nat) \<le> 57)"

definition digitVal :: "char \<Rightarrow> nat" where
  "digitVal c = of_char c - 48"

definition digitChar :: "nat \<Rightarrow> char" where
  "digitChar d = char_of (48 + d)"

function utoa :: "int \<Rightarrow> string" where
  "utoa n = (if n < 10 then [digitChar (nat n)] else utoa (n div 10) @ [digitChar (nat (n mod 10))])"
  by pat_completeness auto
termination
  by (relation "measure nat") auto

declare utoa.simps [simp del]

text \<open>The verb \<^verbatim>\<open>%d\<close> of \<^verbatim>\<open>fmt.Sprintf\<close> on an \<^verbatim>\<open>int\<close>.\<close>

definition itoa :: "int \<Rightarrow> string" where
  "itoa i = (if i < 0 then CHR ''-'' # utoa (- i) else utoa i)"

definition atou :: "string \<Rightarrow> int" where
  "atou ds = foldl (\<lambda>a c. 10 * a + int (digitVal c)) 0 ds"

text \<open>\<^verbatim>\<open>fmt.Sscanf(s, "%d", &v)\<close> on text without leading white space (every caller
  passes the result of \<^verbatim>\<open>strings.TrimSpace\<close>): an optional sign, then the longest run of
  characters among the digits and the underscore, which must not be empty, handed to
  \<^verbatim>\<open>strconv.ParseInt(tok, 10, 64)\<close>. \<open>None\<close> is an error, which leaves \<open>v\<close> as it was.\<close>

definition Sscanf_d :: "string \<Rightarrow> int option" where
  "Sscanf_d s =
     (let (sgn, r) = (case s of c # cs \<Rightarrow> if c = CHR ''+'' \<or> c = CHR ''-'' then ([c], cs) else ([], s)
                              | [] \<Rightarrow> ([], s));
          tok = takeWhile (\<lambda>c. isDigit c \<or> c = CHR ''_'') r
      in if tok = [] then None
         else if CHR ''_'' \<in> set tok then None
         else (let v = (if sgn = [CHR ''-''] then - atou tok else atou tok)
               in if v < - (2 ^ 63) \<or> 2 ^ 63 \<le> v then None else Some v))"

section \<open>Time values\<close>

text \<open>A \<^verbatim>\<open>time.Time\<close> as its accessors show it: the calendar date and clock time in the
  value's own location, the nanosecond, and the location's offset east of UTC in seconds.\<close>

record Time =
  Year :: int
  Month :: nat
  Day :: nat
  Hour :: nat
  Minute :: nat
  Second :: nat
  Nanosecond :: int
  ZoneOffset :: int

definition zeroTime :: Time where
  "zeroTime = \<lparr> Year = 1, Month = 1, Day = 1, Hour = 0, Minute = 0, Second = 0,
                 Nanosecond = 0, ZoneOffset = 0 \<rparr>"

definition isLeap :: "int \<Rightarrow> bool" where
  "isLeap y = (y mod 4 = 0 \<and> (y mod 100 \<noteq> 0 \<or> y mod 400 = 0))"

definition daysIn :: "nat \<Rightarrow> int \<Rightarrow> nat" where
  "daysIn m y =
     (if m = 2 then (if isLeap y then 29 else 28)
      else if m = 4 \<or> m = 6 \<or> m = 9 \<or> m = 11 then 30
      else 31)"

text \<open>\<^verbatim>\<open>appendInt(b, x, width)\<close> of package time: sign, then the digits padded with zeros.\<close>

definition appendInt :: "int \<Rightarrow> nat \<Rightarrow> string" where
  "appendInt x width =
     (let ds = utoa \<bar>x\<bar> in
      (if x < 0 then [CHR ''-''] else []) @ replicate (width - length ds) (CHR ''0'') @ ds)"

text \<open>\<^verbatim>\<open>t.Format("2006-01-02 15:04:05")\<close>.\<close>

definition Time_Format :: "Time \<Rightarrow> string" where
  "Time_Format t =
     appendInt (Year t) 4 @ [CHR ''-''] @ appendInt (int (Month t)) 2 @ [CHR ''-''] @
     appendInt (int (Day t)) 2 @ [CHR '' ''] @ appendInt (int (Hour t)) 2 @ [CHR '':''] @
     appendInt (int (Minute t)) 2 @ [CHR '':''] @ appendInt (int (Second t)) 2"

text \<open>\<^verbatim>\<open>getnum(s, fixed)\<close> of package time: one or two digits, exactly two when fixed.\<close>

definition getnum :: "string \<Rightarrow> bool \<Rightarrow> (nat \<times> string) option" where
  "getnum s fixed =
     (case s of
        [] \<Rightarrow> None
      | c # r \<Rightarrow>
          if \<not> isDigit c then None
          else (case r of
                  [] \<Rightarrow> if fixed then None else Some (digitVal c, r)
                | d # r' \<Rightarrow>
                    if isDigit d then Some (digitVal c * 10 + digitVal d, r')
                    else if fixed then None else Some (digitVal c, r)))"

text \<open>\<^verbatim>\<open>skip(value, prefix)\<close> for a one-character layout literal: a space of the layout
  stands for any run of spaces in the value, any other character for itself.\<close>

definition skipChar :: "string \<Rightarrow> char \<Rightarrow> string option" where
  "skipChar v c =
     (if c = CHR '' '' then
        (case v of [] \<Rightarrow> Some []
         | d # r \<Rightarrow> if d \<noteq> CHR '' '' then None else Some (dropWhile (\<lambda>x. x = CHR '' '') v))
      else (case v of [] \<Rightarrow> None | d # r \<Rightarrow> if d = c then Some r else None))"

definition getYear4 :: "string \<Rightarrow> (int \<times> string) option" where
  "getYear4 v =
     (if length v < 4 \<or> \<not> list_all isDigit (take 4 v) then None
      else Some (atou (take 4 v), drop 4 v))"

text \<open>A fractional second in the value that the layout does not mention is read all the
  same (\<^verbatim>\<open>parseNanoseconds\<close>): at most nine digits count.\<close>

definition getFrac :: "string \<Rightarrow> (int \<times> string)" where
  "getFrac v =
     (case v of
        c # d # r \<Rightarrow>
          if (c = CHR ''.'' \<or> c = CHR '','') \<and> isDigit d then
            (let ds = takeWhile isDigit (d # r);
                 ds9 = take 9 ds
             in (atou ds9 * 10 ^ (9 - length ds9), drop (length ds) (d # r)))
          else (0, v)
      | _ \<Rightarrow> (0, v))"

text \<open>\<^verbatim>\<open>time.Parse("2006-01-02 15:04:05", value)\<close>; \<open>None\<close> is an error. The result
  is in UTC.\<close>

definition getField :: "string \<Rightarrow> bool \<Rightarrow> nat \<Rightarrow> char \<Rightarrow> (nat \<times> string) option" where
  "getField v fixed bound c =
     Option.bind (skipChar v c) (\<lambda>v'.
     Option.bind (getnum v' fixed) (\<lambda>(n, r).
       if bound \<le> n then None else Some (n, r)))"

definition Time_Parse :: "string \<Rightarrow> Time option" where
  "Time_Parse v0 =
     Option.bind (getYear4 v0) (\<lambda>(y, v1).
     Option.bind (getField v1 True 13 (CHR ''-'')) (\<lambda>(mo, v2).
     if mo = 0 then None else
     Option.bind (getField v2 True 100 (CHR ''-'')) (\<lambda>(d, v3).
     Option.bind (getField v3 False 24 (CHR '' '')) (\<lambda>(h, v4).
     Option.bind (getField v4 True 60 (CHR '':'')) (\<lambda>(mi, v5).
     Option.bind (getField v5 True 60 (CHR '':'')) (\<lambda>(s, v6).
       (let (ns, v7) = getFrac v6 in
        if v7 \<noteq> [] then None
        else if d < 1 \<or> daysIn mo y < d then None
        else Some \<lparr> Year = y, Month = mo, Day = d, Hour = h, Minute = mi, Second = s,
                     Nanosecond = ns, ZoneOffset = 0 \<rparr>)))))))"

section \<open>Memory records and the Markdown file\<close>

record Memory =
  ID :: string
  Title :: string
  Content :: string
  Tags :: "string list"
  CreatedAt :: Time
  Source :: string
  Importance :: int

definition zeroMemory :: Memory where
  "zeroMemory = \<lparr> ID = [], Title = [], Content = [], Tags = [], CreatedAt = zeroTime,
                   Source = [], Importance = 0 \<rparr>"

text \<open>The fixed texts of the file, as the bytes of their UTF-8 encoding.\<close>

definition sectionMarker :: string where
  "sectionMarker = [CHR 0x23, CHR 0x23, CHR 0x20, CHR 0xE8, CHR 0xAE, CHR 0xB0,
                    CHR 0xE5, CHR 0xBF, CHR 0x86, CHR 0x20]"

definition fileHeader :: string where
  "fileHeader = [CHR 0x23, CHR 0x20, CHR 0x54, CHR 0x72, CHR 0x61, CHR 0x64, CHR 0x69,
                 CHR 0x6E, CHR 0x67, CHR 0x2D, CHR 0x47, CHR 0x50, CHR 0x54, CHR 0x20,
                 CHR 0xE8, CHR 0xAE, CHR 0xB0, CHR 0xE5, CHR 0xBF, CHR 0x86, CHR 0x0A, CHR 0x0A]"

definition labelID :: string where
  "labelID = [CHR 0x2D, CHR 0x20, CHR 0x2A, CHR 0x2A, CHR 0x49, CHR 0x44, CHR 0x2A, CHR 0x2A, CHR 0x3A]"

definition labelTitle :: string where
  "labelTitle = [CHR 0x2D, CHR 0x20, CHR 0x2A, CHR 0x2A, CHR 0xE6, CHR 0xA0, CHR 0x87,
                 CHR 0xE9, CHR 0xA2, CHR 0x98, CHR 0x2A, CHR 0x2A, CHR 0x3A]"

definition labelTags :: string where
  "labelTags = [CHR 0x2D, CHR 0x20, CHR 0x2A, CHR 0x2A, CHR 0xE6, CHR 0xA0, CHR 0x87,
                CHR 0xE7, CHR 0xAD, CHR 0xBE, CHR 0x2A, CHR 0x2A, CHR 0x3A]"

definition labelCreated :: string where
  "labelCreated = [CHR 0x2D, CHR 0x20, CHR 0x2A, CHR 0x2A, CHR 0xE5, CHR 0x88, CHR 0x9B,
                   CHR 0xE5, CHR 0xBB, CHR 0xBA, CHR 0xE6, CHR 0x97, CHR 0xB6, CHR 0xE9,
                   CHR 0x97, CHR 0xB4, CHR 0x2A, CHR 0x2A, CHR 0x3A]"

definition labelSource :: string where
  "labelSource = [CHR 0x2D, CHR 0x20, CHR 0x2A, CHR 0x2A, CHR 0xE6, CHR 0x9D, CHR 0xA5,
                  CHR 0xE6, CHR 0xBA, CHR 0x90, CHR 0x2A, CHR 0x2A, CHR 0x3A]"

definition labelImportance :: string where
  "labelImportance = [CHR 0x2D, CHR 0x20, CHR 0x2A, CHR 0x2A, CHR 0xE9, CHR 0x87, CHR 0x8D,
                      CHR 0xE8, CHR 0xA6, CHR 0x81, CHR 0xE6, CHR 0x80, CHR 0xA7, CHR 0x2A,
                      CHR 0x2A, CHR 0x3A]"

definition NL :: string where
  "NL = [CHR 0x0A]"

text \<open>What the parser takes from outside: the identifier \<^verbatim>\<open>uuid.New()\<close> returns while
  section \<open>i\<close> is parsed, the reading of \<^verbatim>\<open>time.Now()\<close> at line \<open>j\<close> of section \<open>i\<close>,
  and \<^verbatim>\<open>time.Parse(time.RFC3339, _)\<close>, the fallback layout.\<close>

record ParseEnv =
  uuid_New :: "nat \<Rightarrow> string"
  time_Now :: "nat \<Rightarrow> nat \<Rightarrow> Time"
  time_Parse_RFC3339 :: "string \<Rightarrow> Time option"

text \<open>One metadata line, already trimmed: the chain of \<^verbatim>\<open>strings.HasPrefix\<close> tests.\<close>

definition parseMetaLine :: "ParseEnv \<Rightarrow> nat \<Rightarrow> nat \<Rightarrow> Memory \<Rightarrow> string \<Rightarrow> Memory" where
  "parseMetaLine env i j memory line =
     (if HasPrefix line labelID then
        memory\<lparr> ID := TrimSpace (TrimPrefix line labelID) \<rparr>
      else if HasPrefix line labelTitle then
        memory\<lparr> Title := TrimSpace (TrimPrefix line labelTitle) \<rparr>
      else if HasPrefix line labelTags then
        (let tagStr = TrimSpace (TrimPrefix line labelTags);
             tags = map TrimSpace (Split tagStr [CHR '','']) in
         memory\<lparr> Tags := tags \<rparr>)
      else if HasPrefix line labelCreated then
        (let timeStr = TrimSpace (TrimPrefix line labelCreated);
             t = (case Time_Parse timeStr of
                    Some t \<Rightarrow> t
                  | None \<Rightarrow> (case time_Parse_RFC3339 env timeStr of
                               Some t \<Rightarrow> t
                             | None \<Rightarrow> time_Now env i j)) in
         memory\<lparr> CreatedAt := t \<rparr>)
      else if HasPrefix line labelSource then
        memory\<lparr> Source := TrimSpace (TrimPrefix line labelSource) \<rparr>
      else if HasPrefix line labelImportance then
        (let importanceStr = TrimSpace (TrimPrefix line labelImportance) in
         case Sscanf_d importanceStr of
           Some v \<Rightarrow> memory\<lparr> Importance := v \<rparr>
         | None \<Rightarrow> memory)
      else memory)"

text \<open>The loop over the lines of a section: it stops at the first line that is empty once
  trimmed, and the lines after it are the content. Without such a line there is no content.\<close>

fun parseMeta :: "ParseEnv \<Rightarrow> nat \<Rightarrow> nat \<Rightarrow> Memory \<Rightarrow> string list \<Rightarrow> Memory \<times> string list" where
  "parseMeta env i j memory [] = (memory, [])"
| "parseMeta env i j memory (l # ls) =
     (let line = TrimSpace l in
      if line = [] then (memory, ls)
      else parseMeta env i (Suc j) (parseMetaLine env i j memory line) ls)"

definition parseSection :: "ParseEnv \<Rightarrow> nat \<Rightarrow> string \<Rightarrow> Memory option" where
  "parseSection env i section =
     (let lines = Split section NL in
      if length lines < 6 then None
      else
        (let (memory, contentLines) = parseMeta env i 0 zeroMemory lines;
             memory = memory\<lparr> Content := TrimSpace (Join contentLines NL) \<rparr>;
             memory = (if ID memory = [] then memory\<lparr> ID := uuid_New env i \<rparr> else memory)
         in Some memory))"

fun parseSections :: "ParseEnv \<Rightarrow> nat \<Rightarrow> string list \<Rightarrow> Memory list" where
  "parseSections env i [] = []"
| "parseSections env i (s # ss) =
     (case parseSection env i s of
        None \<Rightarrow> parseSections env (Suc i) ss
      | Some memory \<Rightarrow> memory # parseSections env (Suc i) ss)"

text \<open>\<^verbatim>\<open>parseMemoriesFromMarkdown\<close>; its error result is always \<^verbatim>\<open>nil\<close>.\<close>

definition parseMemoriesFromMarkdown :: "ParseEnv \<Rightarrow> string \<Rightarrow> Memory list" where
  "parseMemoriesFromMarkdown env content =
     (let sections = Split content sectionMarker in
      if length sections \<le> 1 then []
      else parseSections env 1 (tl sections))"

definition memoryBlock :: "nat \<Rightarrow> Memory \<Rightarrow> string" where
  "memoryBlock i memory =
     sectionMarker @ itoa (int i + 1) @ NL @
     labelID @ [CHR '' ''] @ ID memory @ NL @
     labelTitle @ [CHR '' ''] @ Title memory @ NL @
     labelTags @ [CHR '' ''] @ Join (Tags memory) [CHR '','', CHR '' ''] @ NL @
     labelCreated @ [CHR '' ''] @ Time_Format (CreatedAt memory) @ NL @
     labelSource @ [CHR '' ''] @ Source memory @ NL @
     labelImportance @ [CHR '' ''] @ itoa (Importance memory) @ NL @ NL @
     Content memory @
     NL @ NL"

fun memoryBlocks :: "nat \<Rightarrow> Memory list \<Rightarrow> string" where
  "memoryBlocks i [] = []"
| "memoryBlocks i (memory # memories) = memoryBlock i memory @ memoryBlocks (Suc i) memories"

definition generateMemoriesMarkdown :: "Memory list \<Rightarrow> string" where
  "generateMemoriesMarkdown memories = fileHeader @ memoryBlocks 0 memories"

section \<open>sort.Slice\<close>

text \<open>
  \<^verbatim>\<open>sort.Slice(x, less)\<close> of the Go standard library (pattern-defeating quicksort,
  \<^verbatim>\<open>pdqsort_func\<close> and its helpers in \<^verbatim>\<open>sort/zsortfunc.go\<close>). The slice is a list, the
  callback \<^verbatim>\<open>less(i, j)\<close> compares the elements now at \<open>i\<close> and \<open>j\<close>, and
  \<^verbatim>\<open>data.Swap(i, j)\<close> exchanges them. Indices are naturals: every index the code forms
  lies between the bounds \<open>a\<close> and \<open>b\<close> of the range being sorted.
\<close>

definition swap :: "'a list \<Rightarrow> nat \<Rightarrow> nat \<Rightarrow> 'a list" where
  "swap xs i j = xs[i := xs ! j, j := xs ! i]"

text \<open>\<^verbatim>\<open>insertionSort_func\<close>: the inner loop moves the element at \<open>j\<close> down.\<close>

function insertDown :: "('a \<Rightarrow> 'a \<Rightarrow> bool) \<Rightarrow> 'a list \<Rightarrow> nat \<Rightarrow> nat \<Rightarrow> 'a list" where
  "insertDown lt xs a j =
     (if a < j \<and> lt (xs ! j) (xs ! (j - 1))
      then insertDown lt (swap xs j (j - 1)) a (j - 1)
      else xs)"
  by pat_completeness auto
termination
  by (relation "measure (\<lambda>(lt, xs, a, j). j)") auto

declare insertDown.simps [simp del]

function insertionLoop :: "('a \<Rightarrow> 'a \<Rightarrow> bool) \<Rightarrow> 'a list \<Rightarrow> nat \<Rightarrow> nat \<Rightarrow> nat \<Rightarrow> 'a list" where
  "insertionLoop lt xs a b i =
     (if i < b then insertionLoop lt (insertDown lt xs a i) a b (i + 1) else xs)"
  by pat_completeness auto
termination
  by (relation "measure (\<lambda>(lt, xs, a, b, i). b - i)") auto

declare insertionLoop.simps [simp del]

definition insertionSort :: "('a \<Rightarrow> 'a \<Rightarrow> bool) \<Rightarrow> 'a list \<Rightarrow> nat \<Rightarrow> nat \<Rightarrow> 'a list" where
  "insertionSort lt xs a b = insertionLoop lt xs a b (a + 1)"

text \<open>\<^verbatim>\<open>siftDown_func\<close> and \<^verbatim>\<open>heapSort_func\<close>. The two counting-down loops of the heap
  sort run while \<open>i \<ge> 0\<close>; here the counter is \<open>i + 1\<close>.\<close>

function siftDown :: "('a \<Rightarrow> 'a \<Rightarrow> bool) \<Rightarrow> 'a list \<Rightarrow> nat \<Rightarrow> nat \<Rightarrow> nat \<Rightarrow> 'a list" where
  "siftDown lt xs root hi first =
     (let child = 2 * root + 1 in
      if child \<ge> hi then xs
      else
        (let child = (if child + 1 < hi \<and> lt (xs ! (first + child)) (xs ! (first + child + 1))
                      then child + 1 else child) in
         if \<not> lt (xs ! (first + root)) (xs ! (first + child)) then xs
         else siftDown lt (swap xs (first + root) (first + child)) child hi first))"
  by pat_completeness auto
termination
  by (relation "measure (\<lambda>(lt, xs, root, hi, first). hi - root)") (auto simp: Let_def)

declare siftDown.simps [simp del]

fun heapBuild :: "('a \<Rightarrow> 'a \<Rightarrow> bool) \<Rightarrow> 'a list \<Rightarrow> nat \<Rightarrow> nat \<Rightarrow> nat \<Rightarrow> 'a list" where
  "heapBuild lt xs hi first 0 = xs"
| "heapBuild lt xs hi first (Suc i) = heapBuild lt (siftDown lt xs i hi first) hi first i"

fun heapPop :: "('a \<Rightarrow> 'a \<Rightarrow> bool) \<Rightarrow> 'a list \<Rightarrow> nat \<Rightarrow> nat \<Rightarrow> 'a list" where
  "heapPop lt xs first 0 = xs"
| "heapPop lt xs first (Suc i) =
     heapPop lt (siftDown lt (swap xs first (first + i)) 0 i first) first i"

definition heapSort :: "('a \<Rightarrow> 'a \<Rightarrow> bool) \<Rightarrow> 'a list \<Rightarrow> nat \<Rightarrow> nat \<Rightarrow> 'a list" where
  "heapSort lt xs a b =
     (let first = a; hi = b - a in
      heapPop lt (heapBuild lt xs hi first ((hi - 1) div 2 + 1)) first hi)"

text \<open>\<^verbatim>\<open>partition_func\<close>. The two scanning loops; \<open>i\<close> starts above \<open>a\<close>, so \<open>j\<close> is
  positive whenever it is decremented.\<close>

function scanUp :: "('a \<Rightarrow> 'a \<Rightarrow> bool) \<Rightarrow> 'a list \<Rightarrow> nat \<Rightarrow> nat \<Rightarrow> nat \<Rightarrow> nat" where
  "scanUp lt xs a i j =
     (if i \<le> j \<and> lt (xs ! i) (xs ! a) then scanUp lt xs a (i + 1) j else i)"
  by pat_completeness auto
termination
  by (relation "measure (\<lambda>(lt, xs, a, i, j). j + 1 - i)") auto

declare scanUp.simps [simp del]

function scanDown :: "('a \<Rightarrow> 'a \<Rightarrow> bool) \<Rightarrow> 'a list \<Rightarrow> nat \<Rightarrow> nat \<Rightarrow> nat \<Rightarrow> nat" where
  "scanDown lt xs a i j =
     (if i \<le> j \<and> 0 < j \<and> \<not> lt (xs ! j) (xs ! a) then scanDown lt xs a i (j - 1) else j)"
  by pat_completeness auto
termination
  by (relation "measure (\<lambda>(lt, xs, a, i, j). j)") auto

declare scanDown.simps [simp del]

function partitionLoop :: "('a \<Rightarrow> 'a \<Rightarrow> bool) \<Rightarrow> 'a list \<Rightarrow> nat \<Rightarrow> nat \<Rightarrow> nat \<Rightarrow> 'a list \<times> nat" where
  "partitionLoop lt xs a i j =
     (let i' = scanUp lt xs a i j;
          j' = scanDown lt xs a i' j in
      if i' > j' then (xs, j')
      else partitionLoop lt (swap xs i' j') a (i' + 1) (j' - 1))"
  by pat_completeness auto

lemma scanUp_ge: "i \<le> scanUp lt xs a i j"
  by (induction lt xs a i j rule: scanUp.induct) (subst scanUp.simps, auto)

lemma scanDown_le: "scanDown lt xs a i j \<le> j"
  by (induction lt xs a i j rule: scanDown.induct) (subst scanDown.simps, auto)

termination partitionLoop
proof (relation "measure (\<lambda>(lt, xs, a, i, j). j + 1 - i)")
  show "wf (measure (\<lambda>(lt, xs, a, i, j). j + 1 - i))" by simp
next
  fix lt :: "'a \<Rightarrow> 'a \<Rightarrow> bool" and xs :: "'a list" and a i j i' j'
  assume "i' = scanUp lt xs a i j" "j' = scanDown lt xs a i' j" "\<not> j' < i'"
  moreover have "i \<le> scanUp lt xs a i j" by (rule scanUp_ge)
  moreover have "scanDown lt xs a (scanUp lt xs a i j) j \<le> j" by (rule scanDown_le)
  ultimately show "((lt, swap xs i' j', a, i' + 1, j' - 1), (lt, xs, a, i, j))
      \<in> measure (\<lambda>(lt, xs, a, i, j). j + 1 - i)"
    by auto
qed

declare partitionLoop.simps [simp del]

definition partition :: "('a \<Rightarrow> 'a \<Rightarrow> bool) \<Rightarrow> 'a list \<Rightarrow> nat \<Rightarrow> nat \<Rightarrow> nat \<Rightarrow> 'a list \<times> nat \<times> bool" where
  "partition lt xs0 a b pivot =
     (let xs = swap xs0 a pivot;
          i = scanUp lt xs a (a + 1) (b - 1);
          j = scanDown lt xs a i (b - 1) in
      if i > j then (swap xs j a, j, True)
      else
        (let (xs', j') = partitionLoop lt (swap xs i j) a (i + 1) (j - 1) in
         (swap xs' j' a, j', False)))"

text \<open>\<^verbatim>\<open>partitionEqual_func\<close>.\<close>

function scanUpEq :: "('a \<Rightarrow> 'a \<Rightarrow> bool) \<Rightarrow> 'a list \<Rightarrow> nat \<Rightarrow> nat \<Rightarrow> nat \<Rightarrow> nat" where
  "scanUpEq lt xs a i j =
     (if i \<le> j \<and> \<not> lt (xs ! a) (xs ! i) then scanUpEq lt xs a (i + 1) j else i)"
  by pat_completeness auto
termination
  by (relation "measure (\<lambda>(lt, xs, a, i, j). j + 1 - i)") auto

declare scanUpEq.simps [simp del]

function scanDownEq :: "('a \<Rightarrow> 'a \<Rightarrow> bool) \<Rightarrow> 'a list \<Rightarrow> nat \<Rightarrow> nat \<Rightarrow> nat \<Rightarrow> nat" where
  "scanDownEq lt xs a i j =
     (if i \<le> j \<and> 0 < j \<and> lt (xs ! a) (xs ! j) then scanDownEq lt xs a i (j - 1) else j)"
  by pat_completeness auto
termination
  by (relation "measure (\<lambda>(lt, xs, a, i, j). j)") auto

declare scanDownEq.simps [simp del]

function partitionEqualLoop :: "('a \<Rightarrow> 'a \<Rightarrow> bool) \<Rightarrow> 'a list \<Rightarrow> nat \<Rightarrow> nat \<Rightarrow> nat \<Rightarrow> 'a list \<times> nat" where
  "partitionEqualLoop lt xs a i j =
     (let i' = scanUpEq lt xs a i j;
          j' = scanDownEq lt xs a i' j in
      if i' > j' then (xs, i')
      else partitionEqualLoop lt (swap xs i' j') a (i' + 1) (j' - 1))"
  by pat_completeness auto

lemma scanUpEq_ge: "i \<le> scanUpEq lt xs a i j"
  by (induction lt xs a i j rule: scanUpEq.induct) (subst scanUpEq.simps, auto)

lemma scanDownEq_le: "scanDownEq lt xs a i j \<le> j"
  by (induction lt xs a i j rule: scanDownEq.induct) (subst scanDownEq.simps, auto)

termination partitionEqualLoop
proof (relation "measure (\<lambda>(lt, xs, a, i, j). j + 1 - i)")
  show "wf (measure (\<lambda>(lt, xs, a, i, j). j + 1 - i))" by simp
next
  fix lt :: "'a \<Rightarrow> 'a \<Rightarrow> bool" and xs :: "'a list" and a i j i' j'
  assume "i' = scanUpEq lt xs a i j" "j' = scanDownEq lt xs a i' j" "\<not> j' < i'"
  moreover have "i \<le> scanUpEq lt xs a i j" by (rule scanUpEq_ge)
  moreover have "scanDownEq lt xs a (scanUpEq lt xs a i j) j \<le> j" by (rule scanDownEq_le)
  ultimately show "((lt, swap xs i' j', a, i' + 1, j' - 1), (lt, xs, a, i, j))
      \<in> measure (\<lambda>(lt, xs, a, i, j). j + 1 - i)"
    by auto
qed

declare partitionEqualLoop.simps [simp del]

definition partitionEqual :: "('a \<Rightarrow> 'a \<Rightarrow> bool) \<Rightarrow> 'a list \<Rightarrow> nat \<Rightarrow> nat \<Rightarrow> nat \<Rightarrow> 'a list \<times> nat" where
  "partitionEqual lt xs0 a b pivot =
     partitionEqualLoop lt (swap xs0 a pivot) a (a + 1) (b - 1)"

text \<open>\<^verbatim>\<open>partialInsertionSort_func\<close>: at most five out-of-order pairs are repaired, and none
  on a range shorter than fifty.\<close>

function skipSorted :: "('a \<Rightarrow> 'a \<Rightarrow> bool) \<Rightarrow> 'a list \<Rightarrow> nat \<Rightarrow> nat \<Rightarrow> nat" where
  "skipSorted lt xs b i =
     (if i < b \<and> \<not> lt (xs ! i) (xs ! (i - 1)) then skipSorted lt xs b (i + 1) else i)"
  by pat_completeness auto
termination
  by (relation "measure (\<lambda>(lt, xs, b, i). b - i)") auto

declare skipSorted.simps [simp del]

function shiftLeft :: "('a \<Rightarrow> 'a \<Rightarrow> bool) \<Rightarrow> 'a list \<Rightarrow> nat \<Rightarrow> 'a list" where
  "shiftLeft lt xs j =
     (if j \<ge> 1 \<and> lt (xs ! j) (xs ! (j - 1)) then shiftLeft lt (swap xs j (j - 1)) (j - 1) else xs)"
  by pat_completeness auto
termination
  by (relation "measure (\<lambda>(lt, xs, j). j)") auto

declare shiftLeft.simps [simp del]

function shiftRight :: "('a \<Rightarrow> 'a \<Rightarrow> bool) \<Rightarrow> 'a list \<Rightarrow> nat \<Rightarrow> nat \<Rightarrow> 'a list" where
  "shiftRight lt xs b j =
     (if j < b \<and> lt (xs ! j) (xs ! (j - 1)) then shiftRight lt (swap xs j (j - 1)) b (j + 1) else xs)"
  by pat_completeness auto
termination
  by (relation "measure (\<lambda>(lt, xs, b, j). b - j)") auto

declare shiftRight.simps [simp del]

fun partialInsertionLoop :: "('a \<Rightarrow> 'a \<Rightarrow> bool) \<Rightarrow> 'a list \<Rightarrow> nat \<Rightarrow> nat \<Rightarrow> nat \<Rightarrow> nat \<Rightarrow> 'a list \<times> bool" where
  "partialInsertionLoop lt xs a b i 0 = (xs, False)"
| "partialInsertionLoop lt xs a b i (Suc steps) =
     (let i = skipSorted lt xs b i in
      if i = b then (xs, True)
      else if b - a < 50 then (xs, False)
      else
        (let xs = swap xs i (i - 1);
             xs = (if i - a \<ge> 2 then shiftLeft lt xs (i - 1) else xs);
             xs = (if b - i \<ge> 2 then shiftRight lt xs b (i + 1) else xs)
         in partialInsertionLoop lt xs a b i steps))"

definition partialInsertionSort :: "('a \<Rightarrow> 'a \<Rightarrow> bool) \<Rightarrow> 'a list \<Rightarrow> nat \<Rightarrow> nat \<Rightarrow> 'a list \<times> bool" where
  "partialInsertionSort lt xs a b = partialInsertionLoop lt xs a b (a + 1) 5"

text \<open>\<^verbatim>\<open>breakPatterns_func\<close>. The argument \<open>next\<close> is \<^verbatim>\<open>xorshift.Next\<close>, the step of the
  pseudo-random generator on its 64-bit state.\<close>

text \<open>\<^verbatim>\<open>xorshift.Next\<close> as the library defines it, on a state of 64 bits.\<close>

definition xorshift_Next :: "nat \<Rightarrow> nat" where
  "xorshift_Next r =
     (let r = Bit_Operations.xor r (push_bit 13 r mod 2 ^ 64);
          r = Bit_Operations.xor r (drop_bit 7 r);
          r = Bit_Operations.xor r (push_bit 17 r mod 2 ^ 64)
      in r)"

fun bitsLen :: "nat \<Rightarrow> nat" where
  "bitsLen n = (if n = 0 then 0 else Suc (bitsLen (n div 2)))"

declare bitsLen.simps [simp del]

fun breakLoop :: "(nat \<Rightarrow> nat) \<Rightarrow> 'a list \<Rightarrow> nat \<Rightarrow> nat \<Rightarrow> nat \<Rightarrow> nat \<Rightarrow> nat \<Rightarrow> nat \<Rightarrow> nat \<Rightarrow> 'a list" where
  "breakLoop next xs a len modulus idx random i 0 = xs"
| "breakLoop next xs a len modulus idx random i (Suc k) =
     (let random = next random;
          other = random mod modulus;
          other = (if other \<ge> len then other - len else other)
      in breakLoop next (swap xs (idx - 1 + i) (a + other)) a len modulus idx random (i + 1) k)"

definition breakPatterns :: "(nat \<Rightarrow> nat) \<Rightarrow> 'a list \<Rightarrow> nat \<Rightarrow> nat \<Rightarrow> 'a list" where
  "breakPatterns next xs a b =
     (let len = b - a in
      if len \<ge> 8 then
        breakLoop next xs a len (2 ^ bitsLen len) (a + (len div 4) * 2 - 1) len 0 3
      else xs)"

text \<open>\<^verbatim>\<open>choosePivot_func\<close> with \<^verbatim>\<open>order2_func\<close>, \<^verbatim>\<open>median_func\<close> and
  \<^verbatim>\<open>medianAdjacent_func\<close>; the counter of swaps is passed along.\<close>

datatype sortedHint = unknownHint | increasingHint | decreasingHint

definition order2 :: "('a \<Rightarrow> 'a \<Rightarrow> bool) \<Rightarrow> 'a list \<Rightarrow> nat \<Rightarrow> nat \<Rightarrow> nat \<Rightarrow> (nat \<times> nat) \<times> nat" where
  "order2 lt xs a b swaps =
     (if lt (xs ! b) (xs ! a) then ((b, a), swaps + 1) else ((a, b), swaps))"

definition median :: "('a \<Rightarrow> 'a \<Rightarrow> bool) \<Rightarrow> 'a list \<Rightarrow> nat \<Rightarrow> nat \<Rightarrow> nat \<Rightarrow> nat \<Rightarrow> nat \<times> nat" where
  "median lt xs a b c swaps =
     (let ((a, b), swaps) = order2 lt xs a b swaps;
          ((b, c), swaps) = order2 lt xs b c swaps;
          ((a, b), swaps) = order2 lt xs a b swaps
      in (b, swaps))"

definition medianAdjacent :: "('a \<Rightarrow> 'a \<Rightarrow> bool) \<Rightarrow> 'a list \<Rightarrow> nat \<Rightarrow> nat \<Rightarrow> nat \<times> nat" where
  "medianAdjacent lt xs a swaps = median lt xs (a - 1) a (a + 1) swaps"

definition choosePivot :: "('a \<Rightarrow> 'a \<Rightarrow> bool) \<Rightarrow> 'a list \<Rightarrow> nat \<Rightarrow> nat \<Rightarrow> nat \<times> sortedHint" where
  "choosePivot lt xs a b =
     (let l = b - a;
          swaps = 0;
          i = a + l div 4 * 1;
          j = a + l div 4 * 2;
          k = a + l div 4 * 3;
          (j, swaps) =
            (if l \<ge> 8 then
               (let (i, j, k, swaps) =
                      (if l \<ge> 50 then
                         (let (i, swaps) = medianAdjacent lt xs i swaps;
                              (j, swaps) = medianAdjacent lt xs j swaps;
                              (k, swaps) = medianAdjacent lt xs k swaps
                          in (i, j, k, swaps))
                       else (i, j, k, swaps))
                in median lt xs i j k swaps)
             else (j, swaps))
      in if swaps = 0 then (j, increasingHint)
         else if swaps = 12 then (j, decreasingHint)
         else (j, unknownHint))"

function reverseRangeLoop :: "'a list \<Rightarrow> nat \<Rightarrow> nat \<Rightarrow> 'a list" where
  "reverseRangeLoop xs i j =
     (if i < j then reverseRangeLoop (swap xs i j) (i + 1) (j - 1) else xs)"
  by pat_completeness auto
termination
  by (relation "measure (\<lambda>(xs, i, j). j - i)") auto

declare reverseRangeLoop.simps [simp del]

definition reverseRange :: "'a list \<Rightarrow> nat \<Rightarrow> nat \<Rightarrow> 'a list" where
  "reverseRange xs a b = reverseRangeLoop xs a (b - 1)"

lemma scanUp_le: "i \<le> j + 1 \<Longrightarrow> scanUp lt xs a i j \<le> j + 1"
proof (induction lt xs a i j rule: scanUp.induct)
  case (1 lt xs a i j)
  show ?case
  proof (cases "i \<le> j \<and> lt (xs ! i) (xs ! a)")
    case True
    with 1(1) have "scanUp lt xs a (i + 1) j \<le> j + 1" by simp
    with True show ?thesis by (subst scanUp.simps) simp
  next
    case False
    with 1(2) show ?thesis by (subst scanUp.simps) auto
  qed
qed

lemma scanDown_ge: "i \<le> j + 1 \<Longrightarrow> i \<le> scanDown lt xs a i j + 1"
  by (induction lt xs a i j rule: scanDown.induct) (subst scanDown.simps, auto)

lemma scanUp_post:
  "scanUp lt xs a i j > j \<or> \<not> lt (xs ! scanUp lt xs a i j) (xs ! a)"
  by (induction lt xs a i j rule: scanUp.induct) (subst (1 2) scanUp.simps, auto)

lemma scanDown_post:
  "i > scanDown lt xs a i j \<or> scanDown lt xs a i j = 0 \<or> lt (xs ! scanDown lt xs a i j) (xs ! a)"
  by (induction lt xs a i j rule: scanDown.induct) (subst (1 2 3) scanDown.simps, auto)

lemma scan_meet:
  fixes lt :: "'a \<Rightarrow> 'a \<Rightarrow> bool" and xs :: "'a list" and a i j :: nat
  assumes "0 < i" "i \<le> j + 1"
  shows "i \<le> scanUp lt xs a i j" "scanUp lt xs a i j \<le> j + 1"
    "scanUp lt xs a i j \<le> scanDown lt xs a (scanUp lt xs a i j) j + 1"
    "scanDown lt xs a (scanUp lt xs a i j) j \<le> j"
    "scanUp lt xs a i j \<noteq> scanDown lt xs a (scanUp lt xs a i j) j"
proof -
  let ?i = "scanUp lt xs a i j"
  let ?j = "scanDown lt xs a ?i j"
  show b1: "i \<le> ?i" by (rule scanUp_ge)
  show b2: "?i \<le> j + 1" using assms(2) by (rule scanUp_le)
  show b3: "?i \<le> ?j + 1" using b2 by (rule scanDown_ge)
  show b4: "?j \<le> j" by (rule scanDown_le)
  show "?i \<noteq> ?j"
  proof
    assume e: "?i = ?j"
    with b4 have "\<not> lt (xs ! ?i) (xs ! a)" using scanUp_post[where i=i and lt=lt and xs=xs and a=a and j=j] by simp
    moreover from e b1 assms(1) have "lt (xs ! ?j) (xs ! a)"
      using scanDown_post[where i="?i" and lt=lt and xs=xs and a=a and j=j] by simp
    ultimately show False using e by simp
  qed
qed

lemma partitionLoop_bounds:
  "0 < i \<Longrightarrow> i \<le> j + 1 \<Longrightarrow>
     i \<le> snd (partitionLoop lt xs a i j) + 1 \<and> snd (partitionLoop lt xs a i j) \<le> j"
proof (induction lt xs a i j rule: partitionLoop.induct)
  case (1 lt xs a i j)
  let ?i = "scanUp lt xs a i j"
  let ?j = "scanDown lt xs a ?i j"
  note m = scan_meet[OF 1(2) 1(3), where lt=lt and xs=xs and a=a]
  show ?case
  proof (cases "?i > ?j")
    case True
    then show ?thesis using m by (subst (1 2) partitionLoop.simps) (auto simp: Let_def)
  next
    case False
    with m have lt: "?i < ?j" by simp
    then have "0 < ?i + 1" "?i + 1 \<le> ?j - 1 + 1" by simp_all
    from 1(1)[OF refl refl False this] lt m
    show ?thesis by (subst (1 2) partitionLoop.simps) (auto simp: Let_def)
  qed
qed

lemma partition_mid:
  assumes "a < b"
  shows "a \<le> fst (snd (partition lt xs a b pivot)) \<and> fst (snd (partition lt xs a b pivot)) < b"
proof -
  let ?xs = "swap xs a pivot"
  let ?i = "scanUp lt ?xs a (a + 1) (b - 1)"
  let ?j = "scanDown lt ?xs a ?i (b - 1)"
  have "0 < a + 1" "a + 1 \<le> b - 1 + 1" using assms by simp_all
  note m = scan_meet[OF this, where lt=lt and xs="?xs" and a=a]
  show ?thesis
  proof (cases "?i > ?j")
    case True
    then show ?thesis using m assms by (auto simp: partition_def Let_def)
  next
    case False
    with m have lt: "?i < ?j" by simp
    then have "0 < ?i + 1" "?i + 1 \<le> ?j - 1 + 1" by simp_all
    from partitionLoop_bounds[OF this, of lt "swap ?xs ?i ?j" a]
    have "?i + 1 \<le> snd (partitionLoop lt (swap ?xs ?i ?j) a (?i + 1) (?j - 1)) + 1"
      "snd (partitionLoop lt (swap ?xs ?i ?j) a (?i + 1) (?j - 1)) \<le> ?j - 1" by simp_all
    with lt m(1,4) assms
    have "a \<le> snd (partitionLoop lt (swap ?xs ?i ?j) a (?i + 1) (?j - 1))"
      "snd (partitionLoop lt (swap ?xs ?i ?j) a (?i + 1) (?j - 1)) < b" by arith+
    with False show ?thesis by (simp add: partition_def Let_def case_prod_beta)
  qed
qed

lemma partitionEqualLoop_gt: "i \<le> snd (partitionEqualLoop lt xs a i j)"
proof (induction lt xs a i j rule: partitionEqualLoop.induct)
  case (1 lt xs a i j)
  let ?i = "scanUpEq lt xs a i j"
  let ?j = "scanDownEq lt xs a ?i j"
  have b1: "i \<le> ?i" by (rule scanUpEq_ge)
  show ?case
  proof (cases "?i > ?j")
    case True
    then show ?thesis using b1 by (subst partitionEqualLoop.simps) (auto simp: Let_def)
  next
    case False
    from 1[OF refl refl False] False b1
    show ?thesis by (subst partitionEqualLoop.simps) (auto simp: Let_def)
  qed
qed

lemma partitionEqual_mid: "a < snd (partitionEqual lt xs a b pivot)"
  using partitionEqualLoop_gt[of "a + 1" lt "swap xs a pivot" a "b - 1"]
  by (simp add: partitionEqual_def)

lemma partitionEqual_mid': "partitionEqual lt xs a b pivot = (xs2, mid) \<Longrightarrow> a < mid"
  using partitionEqual_mid[of a lt xs b pivot] by simp

lemma partition_mid':
  "partition lt xs a b pivot = (xs2, mid, ap) \<Longrightarrow> a < b \<Longrightarrow> a \<le> mid \<and> mid < b"
  using partition_mid[of a b lt xs pivot] by simp

lemma partitionEqual_mid_sym:
  "(xs2, mid) = partitionEqual lt xs a b pivot \<Longrightarrow> a < mid"
  using partitionEqual_mid'[of lt xs a b pivot xs2 mid] by simp

lemma partition_mid_sym:
  "(xs2, y) = partition lt xs a b pivot \<Longrightarrow> (mid, ap) = y \<Longrightarrow> a < b \<Longrightarrow> a \<le> mid \<and> mid < b"
  using partition_mid'[of lt xs a b pivot xs2 mid ap] by simp

text \<open>The part of one round of \<^verbatim>\<open>pdqsort_func\<close> between the two early returns and the
  partitioning: breaking patterns, choosing the pivot, reversing a decreasing range, and the
  attempt at a partial insertion sort. The result is the slice, the pivot, the limit, and
  whether the range is now sorted.\<close>

definition pdqPrepare ::
  "(nat \<Rightarrow> nat) \<Rightarrow> ('a \<Rightarrow> 'a \<Rightarrow> bool) \<Rightarrow> 'a list \<Rightarrow> nat \<Rightarrow> nat \<Rightarrow> nat \<Rightarrow> bool \<Rightarrow> bool
     \<Rightarrow> 'a list \<times> nat \<times> nat \<times> bool" where
  "pdqPrepare next lt xs a b limit wasBalanced wasPartitioned =
     (let (xs, limit) = (if \<not> wasBalanced then (breakPatterns next xs a b, limit - 1)
                         else (xs, limit));
          (pivot, hint) = choosePivot lt xs a b;
          (xs, pivot, hint) =
             (if hint = decreasingHint
              then (reverseRange xs a b, (b - 1) - (pivot - a), increasingHint)
              else (xs, pivot, hint));
          (xs, done) =
             (if wasBalanced \<and> wasPartitioned \<and> hint = increasingHint
              then partialInsertionSort lt xs a b
              else (xs, False))
      in (xs, pivot, limit, done))"

function pdqsort ::
  "(nat \<Rightarrow> nat) \<Rightarrow> ('a \<Rightarrow> 'a \<Rightarrow> bool) \<Rightarrow> 'a list \<Rightarrow> nat \<Rightarrow> nat \<Rightarrow> nat \<Rightarrow> bool \<Rightarrow> bool \<Rightarrow> 'a list" where
  "pdqsort next lt xs a b limit wasBalanced wasPartitioned =
     (if b - a \<le> 12 then insertionSort lt xs a b
      else if limit = 0 then heapSort lt xs a b
      else
        (case pdqPrepare next lt xs a b limit wasBalanced wasPartitioned of
           (xs1, pivot, limit1, done) \<Rightarrow>
             if done then xs1
             else if a > 0 \<and> \<not> lt (xs1 ! (a - 1)) (xs1 ! pivot) then
               (case partitionEqual lt xs1 a b pivot of
                  (xs2, mid) \<Rightarrow> pdqsort next lt xs2 mid b limit1 wasBalanced wasPartitioned)
             else
               (case partition lt xs1 a b pivot of
                  (xs2, mid, alreadyPartitioned) \<Rightarrow>
                    if mid - a < b - mid then
                      pdqsort next lt (pdqsort next lt xs2 a mid limit1 True True)
                        (mid + 1) b limit1 (mid - a \<ge> (b - a) div 8) alreadyPartitioned
                    else
                      pdqsort next lt (pdqsort next lt xs2 (mid + 1) b limit1 True True)
                        a mid limit1 (b - mid \<ge> (b - a) div 8) alreadyPartitioned)))"
  by pat_completeness auto
termination
  apply (relation "measure (\<lambda>(next, lt, xs, a, b, limit, wb, wp). b - a)")
       apply simp_all
    apply (frule partitionEqual_mid_sym, arith)
   apply (frule (1) partition_mid_sym, arith, arith)
  apply (frule (1) partition_mid_sym, arith, arith)
  done

declare pdqsort.simps [simp del]

text \<open>\<^verbatim>\<open>sort.Slice\<close>: the limit is the bit length of the slice's length.\<close>

definition sort_Slice :: "(nat \<Rightarrow> nat) \<Rightarrow> ('a \<Rightarrow> 'a \<Rightarrow> bool) \<Rightarrow> 'a list \<Rightarrow> 'a list" where
  "sort_Slice next lt xs = pdqsort next lt xs 0 (length xs) (bitsLen (length xs)) True True"



subsection \<open>The rounds of the quicksort, case by case\<close>

lemma pdqsort_small:
  "b - a \<le> 12 \<Longrightarrow> pdqsort next lt xs a b limit wb wp = insertionSort lt xs a b"
  by (subst pdqsort.simps) simp

lemma pdqsort_heap:
  "\<not> b - a \<le> 12 \<Longrightarrow> limit = 0 \<Longrightarrow> pdqsort next lt xs a b limit wb wp = heapSort lt xs a b"
  by (subst pdqsort.simps) simp

lemma pdqsort_done:
  "\<not> b - a \<le> 12 \<Longrightarrow> limit \<noteq> 0
     \<Longrightarrow> pdqPrepare next lt xs a b limit wb wp = (xs1, pivot, limit1, True)
     \<Longrightarrow> pdqsort next lt xs a b limit wb wp = xs1"
  by (subst pdqsort.simps) simp

lemma pdqsort_equal:
  "\<not> b - a \<le> 12 \<Longrightarrow> limit \<noteq> 0
     \<Longrightarrow> pdqPrepare next lt xs a b limit wb wp = (xs1, pivot, limit1, False)
     \<Longrightarrow> a > 0 \<and> \<not> lt (xs1 ! (a - 1)) (xs1 ! pivot)
     \<Longrightarrow> partitionEqual lt xs1 a b pivot = (xs2, mid)
     \<Longrightarrow> pdqsort next lt xs a b limit wb wp = pdqsort next lt xs2 mid b limit1 wb wp"
  by (subst pdqsort.simps) simp

lemma pdqsort_left:
  "\<not> b - a \<le> 12 \<Longrightarrow> limit \<noteq> 0
     \<Longrightarrow> pdqPrepare next lt xs a b limit wb wp = (xs1, pivot, limit1, False)
     \<Longrightarrow> \<not> (a > 0 \<and> \<not> lt (xs1 ! (a - 1)) (xs1 ! pivot))
     \<Longrightarrow> partition lt xs1 a b pivot = (xs2, mid, ap)
     \<Longrightarrow> mid - a < b - mid
     \<Longrightarrow> pdqsort next lt xs a b limit wb wp
          = pdqsort next lt (pdqsort next lt xs2 a mid limit1 True True)
              (mid + 1) b limit1 (mid - a \<ge> (b - a) div 8) ap"
  by (subst pdqsort.simps) auto

lemma pdqsort_right:
  "\<not> b - a \<le> 12 \<Longrightarrow> limit \<noteq> 0
     \<Longrightarrow> pdqPrepare next lt xs a b limit wb wp = (xs1, pivot, limit1, False)
     \<Longrightarrow> \<not> (a > 0 \<and> \<not> lt (xs1 ! (a - 1)) (xs1 ! pivot))
     \<Longrightarrow> partition lt xs1 a b pivot = (xs2, mid, ap)
     \<Longrightarrow> \<not> mid - a < b - mid
     \<Longrightarrow> pdqsort next lt xs a b limit wb wp
          = pdqsort next lt (pdqsort next lt xs2 (mid + 1) b limit1 True True)
              a mid limit1 (b - mid \<ge> (b - a) div 8) ap"
  by (subst pdqsort.simps) auto

lemma pdqsort_rounds [case_names small heap finished equal left right]:
  assumes small: "\<And>next lt xs a b limit wb wp. b - a \<le> 12 \<Longrightarrow> P next lt xs a b limit wb wp"
    and heap: "\<And>next lt xs a b limit wb wp.
        \<not> b - a \<le> 12 \<Longrightarrow> limit = 0 \<Longrightarrow> P next lt xs a b limit wb wp"
    and dn: "\<And>next lt xs a b limit wb wp xs1 pivot limit1.
        \<not> b - a \<le> 12 \<Longrightarrow> limit \<noteq> 0
        \<Longrightarrow> pdqPrepare next lt xs a b limit wb wp = (xs1, pivot, limit1, True)
        \<Longrightarrow> P next lt xs a b limit wb wp"
    and equal: "\<And>next lt xs a b limit wb wp xs1 pivot limit1 xs2 mid.
        \<not> b - a \<le> 12 \<Longrightarrow> limit \<noteq> 0
        \<Longrightarrow> pdqPrepare next lt xs a b limit wb wp = (xs1, pivot, limit1, False)
        \<Longrightarrow> a > 0 \<and> \<not> lt (xs1 ! (a - 1)) (xs1 ! pivot)
        \<Longrightarrow> partitionEqual lt xs1 a b pivot = (xs2, mid)
        \<Longrightarrow> P next lt xs2 mid b limit1 wb wp
        \<Longrightarrow> P next lt xs a b limit wb wp"
    and left: "\<And>next lt xs a b limit wb wp xs1 pivot limit1 xs2 mid ap.
        \<not> b - a \<le> 12 \<Longrightarrow> limit \<noteq> 0
        \<Longrightarrow> pdqPrepare next lt xs a b limit wb wp = (xs1, pivot, limit1, False)
        \<Longrightarrow> \<not> (a > 0 \<and> \<not> lt (xs1 ! (a - 1)) (xs1 ! pivot))
        \<Longrightarrow> partition lt xs1 a b pivot = (xs2, mid, ap)
        \<Longrightarrow> mid - a < b - mid
        \<Longrightarrow> P next lt xs2 a mid limit1 True True
        \<Longrightarrow> P next lt (pdqsort next lt xs2 a mid limit1 True True)
              (mid + 1) b limit1 (mid - a \<ge> (b - a) div 8) ap
        \<Longrightarrow> P next lt xs a b limit wb wp"
    and right: "\<And>next lt xs a b limit wb wp xs1 pivot limit1 xs2 mid ap.
        \<not> b - a \<le> 12 \<Longrightarrow> limit \<noteq> 0
        \<Longrightarrow> pdqPrepare next lt xs a b limit wb wp = (xs1, pivot, limit1, False)
        \<Longrightarrow> \<not> (a > 0 \<and> \<not> lt (xs1 ! (a - 1)) (xs1 ! pivot))
        \<Longrightarrow> partition lt xs1 a b pivot = (xs2, mid, ap)
        \<Longrightarrow> \<not> mid - a < b - mid
        \<Longrightarrow> P next lt xs2 (mid + 1) b limit1 True True
        \<Longrightarrow> P next lt (pdqsort next lt xs2 (mid + 1) b limit1 True True)
              a mid limit1 (b - mid \<ge> (b - a) div 8) ap
        \<Longrightarrow> P next lt xs a b limit wb wp"
  shows "P next lt xs a b limit wb wp"
proof (induction "next" lt xs a b limit wb wp rule: pdqsort.induct)
  case (1 "next" lt xs a b limit wb wp)
  show ?case
  proof (cases "b - a \<le> 12")
    case True
    then show ?thesis by (rule small)
  next
    case big: False
    show ?thesis
    proof (cases "limit = 0")
      case True
      with big show ?thesis by (rule heap)
    next
      case lim: False
      obtain xs1 pivot limit1 d where p: "pdqPrepare next lt xs a b limit wb wp = (xs1, pivot, limit1, d)"
        by (cases "pdqPrepare next lt xs a b limit wb wp") auto
      show ?thesis
      proof (cases d)
        case True
        with p big lim show ?thesis by (auto intro: dn)
      next
        case nd: False
        have p': "pdqPrepare next lt xs a b limit wb wp = (xs1, pivot, limit1, False)"
          using p nd by simp
        show ?thesis
        proof (cases "a > 0 \<and> \<not> lt (xs1 ! (a - 1)) (xs1 ! pivot)")
          case c: True
          obtain xs2 mid where pe: "partitionEqual lt xs1 a b pivot = (xs2, mid)"
            by (cases "partitionEqual lt xs1 a b pivot") auto
          have "P next lt xs2 mid b limit1 wb wp"
            using "1.IH"(1)[OF big lim p[symmetric] refl refl _ c pe[symmetric]] nd by simp
          from equal[OF big lim p' c pe this] show ?thesis .
        next
          case c: False
          obtain xs2 mid ap where pp: "partition lt xs1 a b pivot = (xs2, mid, ap)"
            by (cases "partition lt xs1 a b pivot") auto
          show ?thesis
          proof (cases "mid - a < b - mid")
            case l: True
            have i1: "P next lt xs2 a mid limit1 True True"
              using "1.IH"(2)[OF big lim p[symmetric] refl refl _ c pp[symmetric] refl l] nd
              by simp
            have i2: "P next lt (pdqsort next lt xs2 a mid limit1 True True)
                        (mid + 1) b limit1 (mid - a \<ge> (b - a) div 8) ap"
              using "1.IH"(3)[OF big lim p[symmetric] refl refl _ c pp[symmetric] refl l] nd
              by simp
            from left[OF big lim p' c pp l i1 i2] show ?thesis .
          next
            case l: False
            have i1: "P next lt xs2 (mid + 1) b limit1 True True"
              using "1.IH"(4)[OF big lim p[symmetric] refl refl _ c pp[symmetric] refl l] nd
              by simp
            have i2: "P next lt (pdqsort next lt xs2 (mid + 1) b limit1 True True)
                        a mid limit1 (b - mid \<ge> (b - a) div 8) ap"
              using "1.IH"(5)[OF big lim p[symmetric] refl refl _ c pp[symmetric] refl l] nd
              by simp
            from right[OF big lim p' c pp l i1 i2] show ?thesis .
          qed
        qed
      qed
    qed
  qed
qed

section \<open>The memory manager\<close>

text \<open>Errors: \<^verbatim>\<open>errors.New(msg)\<close>, an error of the operating system, and
  \<^verbatim>\<open>errors.Wrap(err, msg)\<close>.\<close>

datatype error = ErrNew string | ErrOS string | ErrWrap error string

text \<open>
  \<^verbatim>\<open>sync.RWMutex\<close>, seen by the one goroutine that runs the operation: whether the lock is
  held for writing, and how many read locks are held. The lock is not reentrant: \<^verbatim>\<open>Lock\<close>
  on a lock that is held waits until it is released. With no other goroutine to release it
  the caller waits for ever, which is the value \<open>None\<close>.
\<close>

record RWMutex =
  writer :: bool
  readers :: nat

definition Lock :: "RWMutex \<Rightarrow> RWMutex option" where
  "Lock mu = (if writer mu \<or> readers mu > 0 then None else Some (mu\<lparr> writer := True \<rparr>))"

definition Unlock :: "RWMutex \<Rightarrow> RWMutex" where
  "Unlock mu = mu\<lparr> writer := False \<rparr>"

definition RLock :: "RWMutex \<Rightarrow> RWMutex option" where
  "RLock mu = (if writer mu then None else Some (mu\<lparr> readers := Suc (readers mu) \<rparr>))"

definition RUnlock :: "RWMutex \<Rightarrow> RWMutex" where
  "RUnlock mu = mu\<lparr> readers := readers mu - 1 \<rparr>"

text \<open>
  The file system as the manager sees it through its one path: what \<^verbatim>\<open>os.Stat\<close> answers
  for the directory and for the file, the file's content, and the errors that
  \<^verbatim>\<open>os.MkdirAll\<close>, \<^verbatim>\<open>os.ReadFile\<close> and \<^verbatim>\<open>os.WriteFile\<close> would return (\<open>None\<close>: success).
\<close>

datatype StatResult = StatExists | StatNotExist | StatFails

record World =
  dirStat :: StatResult
  mkdirAllErr :: "string option"
  fileStat :: StatResult
  fileData :: string
  readFileErr :: "string option"
  writeFileErr :: "string option"

record MemoryManager =
  filePath :: string
  memories :: "Memory list"
  mutex :: RWMutex
  initialized :: bool

definition NewMemoryManager :: "string \<Rightarrow> MemoryManager" where
  "NewMemoryManager path =
     \<lparr> filePath = path, memories = [], mutex = \<lparr> writer = False, readers = 0 \<rparr>,
       initialized = False \<rparr>"

text \<open>The directory check shared by \<^verbatim>\<open>Initialize\<close> and \<^verbatim>\<open>saveMemoriesToFile\<close>.\<close>

definition ensureDir :: "World \<Rightarrow> error + World" where
  "ensureDir w =
     (if dirStat w = StatNotExist then
        (case mkdirAllErr w of
           Some e \<Rightarrow> Inl (ErrWrap (ErrOS e) ''failed to create memory directory'')
         | None \<Rightarrow> Inr (w\<lparr> dirStat := StatExists \<rparr>))
      else Inr w)"

definition saveMemoriesToFile :: "MemoryManager \<Rightarrow> World \<Rightarrow> error option \<times> World" where
  "saveMemoriesToFile m w =
     (let content = generateMemoriesMarkdown (memories m) in
      case ensureDir w of
        Inl e \<Rightarrow> (Some e, w)
      | Inr w1 \<Rightarrow>
          (case writeFileErr w1 of
             Some e \<Rightarrow> (Some (ErrWrap (ErrOS e) ''failed to write memory file''), w1)
           | None \<Rightarrow> (None, w1\<lparr> fileStat := StatExists, fileData := content \<rparr>)))"

definition os_ReadFile :: "World \<Rightarrow> string + string" where
  "os_ReadFile w =
     (if fileStat w = StatNotExist then Inl ''no such file or directory''
      else case readFileErr w of Some e \<Rightarrow> Inl e | None \<Rightarrow> Inr (fileData w))"

definition loadMemoriesFromFile :: "ParseEnv \<Rightarrow> MemoryManager \<Rightarrow> World \<Rightarrow> error option \<times> MemoryManager" where
  "loadMemoriesFromFile env m w =
     (case os_ReadFile w of
        Inl e \<Rightarrow> (Some (ErrWrap (ErrOS e) ''failed to read memory file''), m)
      | Inr content \<Rightarrow>
          if content = [] then (None, m\<lparr> memories := [] \<rparr>)
          else (None, m\<lparr> memories := parseMemoriesFromMarkdown env content \<rparr>))"

text \<open>Each operation returns \<open>None\<close> when it never returns, and otherwise its result with
  the manager and the file system after the call. The deferred unlock runs on every return.\<close>

definition SaveMemories :: "MemoryManager \<Rightarrow> World \<Rightarrow> (error option \<times> MemoryManager \<times> World) option" where
  "SaveMemories m w =
     (case Lock (mutex m) of
        None \<Rightarrow> None
      | Some mu \<Rightarrow>
          (let m1 = m\<lparr> mutex := mu \<rparr>;
               (err, w1) = saveMemoriesToFile m1 w
           in Some (err, m1\<lparr> mutex := Unlock (mutex m1) \<rparr>, w1)))"

definition Initialize :: "ParseEnv \<Rightarrow> MemoryManager \<Rightarrow> World \<Rightarrow> (error option \<times> MemoryManager \<times> World) option" where
  "Initialize env m w =
     (case Lock (mutex m) of
        None \<Rightarrow> None
      | Some mu \<Rightarrow>
          (let m1 = m\<lparr> mutex := mu \<rparr> in
           if initialized m1 then Some (None, m1\<lparr> mutex := Unlock (mutex m1) \<rparr>, w)
           else
             (case ensureDir w of
                Inl e \<Rightarrow> Some (Some e, m1\<lparr> mutex := Unlock (mutex m1) \<rparr>, w)
              | Inr w1 \<Rightarrow>
                  if fileStat w1 \<noteq> StatNotExist then
                    (case loadMemoriesFromFile env m1 w1 of
                       (Some e, m2) \<Rightarrow>
                         Some (Some (ErrWrap e ''failed to load memories from file''),
                               m2\<lparr> mutex := Unlock (mutex m2) \<rparr>, w1)
                     | (None, m2) \<Rightarrow>
                         Some (None, m2\<lparr> initialized := True, mutex := Unlock (mutex m2) \<rparr>, w1))
                  else
                    (case SaveMemories m1 w1 of
                       None \<Rightarrow> None
                     | Some (Some e, m2, w2) \<Rightarrow>
                         Some (Some (ErrWrap e ''failed to create initial memory file''),
                               m2\<lparr> mutex := Unlock (mutex m2) \<rparr>, w2)
                     | Some (None, m2, w2) \<Rightarrow>
                         Some (None, m2\<lparr> initialized := True, mutex := Unlock (mutex m2) \<rparr>, w2)))))"

text \<open>\<^verbatim>\<open>AddMemory\<close>; \<open>newID\<close> and \<open>now\<close> are what \<^verbatim>\<open>uuid.New().String()\<close> and
  \<^verbatim>\<open>time.Now()\<close> return in this call.\<close>

definition AddMemory ::
  "MemoryManager \<Rightarrow> World \<Rightarrow> string \<Rightarrow> Time \<Rightarrow> string \<Rightarrow> string \<Rightarrow> string list \<Rightarrow> string \<Rightarrow> int
     \<Rightarrow> ((error + Memory) \<times> MemoryManager \<times> World) option" where
  "AddMemory m w newID now title content tags source importance =
     (case Lock (mutex m) of
        None \<Rightarrow> None
      | Some mu \<Rightarrow>
          (let m1 = m\<lparr> mutex := mu \<rparr> in
           if \<not> initialized m1 then
             Some (Inl (ErrNew ''memory manager not initialized''),
                   m1\<lparr> mutex := Unlock (mutex m1) \<rparr>, w)
           else
             (let memory = \<lparr> ID = newID, Title = title, Content = content, Tags = tags,
                             CreatedAt = now, Source = source, Importance = importance \<rparr>;
                  m2 = m1\<lparr> memories := memories m1 @ [memory] \<rparr>;
                  (err, w1) = saveMemoriesToFile m2 w
              in case err of
                   Some e \<Rightarrow>
                     Some (Inl (ErrWrap e ''failed to save memory to file''),
                           m2\<lparr> mutex := Unlock (mutex m2) \<rparr>, w1)
                 | None \<Rightarrow> Some (Inr memory, m2\<lparr> mutex := Unlock (mutex m2) \<rparr>, w1))))"

definition GetAllMemories :: "MemoryManager \<Rightarrow> ((error + Memory list) \<times> MemoryManager) option" where
  "GetAllMemories m =
     (case RLock (mutex m) of
        None \<Rightarrow> None
      | Some mu \<Rightarrow>
          (let m1 = m\<lparr> mutex := mu \<rparr> in
           if \<not> initialized m1 then
             Some (Inl (ErrNew ''memory manager not initialized''),
                   m1\<lparr> mutex := RUnlock (mutex m1) \<rparr>)
           else Some (Inr (memories m1), m1\<lparr> mutex := RUnlock (mutex m1) \<rparr>)))"

text \<open>The loops of \<^verbatim>\<open>RetrieveMemories\<close>. \<open>toLower\<close> is \<^verbatim>\<open>strings.ToLower\<close>, whose Unicode
  case tables are not part of this development.\<close>

fun memoryTagLoop :: "(string \<Rightarrow> string) \<Rightarrow> string \<Rightarrow> string list \<Rightarrow> bool" where
  "memoryTagLoop toLower tag [] = False"
| "memoryTagLoop toLower tag (memoryTag # rest) =
     (if toLower tag = toLower memoryTag then True else memoryTagLoop toLower tag rest)"

fun tagLoop :: "(string \<Rightarrow> string) \<Rightarrow> string list \<Rightarrow> string list \<Rightarrow> bool" where
  "tagLoop toLower [] memoryTags = False"
| "tagLoop toLower (tag # rest) memoryTags =
     (if memoryTagLoop toLower tag memoryTags then True else tagLoop toLower rest memoryTags)"

fun retrieveLoop ::
  "(string \<Rightarrow> string) \<Rightarrow> string \<Rightarrow> string list \<Rightarrow> Memory list \<Rightarrow> Memory list \<Rightarrow> Memory list" where
  "retrieveLoop toLower query tags [] results = results"
| "retrieveLoop toLower query tags (memory # rest) results =
     (if query \<noteq> [] \<and> \<not> Contains (toLower (Title memory)) (toLower query)
          \<and> \<not> Contains (toLower (Content memory)) (toLower query)
      then retrieveLoop toLower query tags rest results
      else if length tags > 0 \<and> \<not> tagLoop toLower tags (Tags memory)
      then retrieveLoop toLower query tags rest results
      else retrieveLoop toLower query tags rest (results @ [memory]))"

definition RetrieveMemories ::
  "(string \<Rightarrow> string) \<Rightarrow> MemoryManager \<Rightarrow> string \<Rightarrow> string list \<Rightarrow> int
     \<Rightarrow> ((error + Memory list) \<times> MemoryManager) option" where
  "RetrieveMemories toLower m query tags limit =
     (case RLock (mutex m) of
        None \<Rightarrow> None
      | Some mu \<Rightarrow>
          (let m1 = m\<lparr> mutex := mu \<rparr>;
               m' = m1\<lparr> mutex := RUnlock (mutex m1) \<rparr> in
           if \<not> initialized m1 then Some (Inl (ErrNew ''memory manager not initialized''), m')
           else if query = [] \<and> length tags = 0 then Some (Inr (memories m1), m')
           else
             (let results = retrieveLoop toLower query tags (memories m1) [];
                  results = (if limit > 0 \<and> int (length results) > limit
                             then take (nat limit) results else results)
              in Some (Inr results, m'))))"

section \<open>The relevance retriever\<close>

text \<open>What \<^verbatim>\<open>llm.GenerateContent\<close> returns for the prompt: an error, a \<^verbatim>\<open>nil\<close> response,
  or a response with the texts of its choices.\<close>

datatype LLMResult = LLMError string | LLMNil | LLMChoices "string list"

definition clampScore :: "int \<Rightarrow> int" where
  "clampScore score = (if score < 0 then 0 else if score > 10 then 10 else score)"

text \<open>The first loop of the parsing: \<open>i\<close> runs over the lines while it is below the number
  of memories; the list argument holds the lines from \<open>i\<close> on.\<close>

fun scoreLoop :: "nat \<Rightarrow> string list \<Rightarrow> int list \<Rightarrow> int list" where
  "scoreLoop i [] scores = scores"
| "scoreLoop i (l # ls) scores =
     (if i < length scores then
        (let line = TrimSpace l in
         if line = [] then scoreLoop (Suc i) ls scores
         else
           (let score = (case Sscanf_d line of Some v \<Rightarrow> v | None \<Rightarrow> 0);
                score = clampScore score
            in scoreLoop (Suc i) ls (scores[i := score])))
      else scores)"

text \<open>The second loop: the scores from the number of lines on are set to zero.\<close>

function padLoop :: "nat \<Rightarrow> int list \<Rightarrow> int list" where
  "padLoop i scores = (if i < length scores then padLoop (Suc i) (scores[i := 0]) else scores)"
  by pat_completeness auto
termination
  by (relation "measure (\<lambda>(i, scores). length scores - i)") auto

declare padLoop.simps [simp del]

definition parseScores :: "string \<Rightarrow> nat \<Rightarrow> int list" where
  "parseScores responseText n =
     (let lines = Split responseText NL;
          scores = replicate n 0;
          scores = scoreLoop 0 lines scores
      in padLoop (length lines) scores)"

definition evaluateRelevance :: "LLMResult \<Rightarrow> Memory list \<Rightarrow> error + int list" where
  "evaluateRelevance resp mems =
     (case resp of
        LLMError e \<Rightarrow> Inl (ErrWrap (ErrOS e) ''failed to call LLM for relevance evaluation'')
      | LLMNil \<Rightarrow> Inl (ErrNew ''empty response from LLM'')
      | LLMChoices cs \<Rightarrow>
          (case cs of
             [] \<Rightarrow> Inl (ErrNew ''empty response from LLM'')
           | c # _ \<Rightarrow>
               if c = [] then Inl (ErrNew ''empty response from LLM'')
               else Inr (parseScores c (length mems))))"

record ScoredMemory =
  Memory :: Memory
  Score :: int

definition scoreLess :: "ScoredMemory \<Rightarrow> ScoredMemory \<Rightarrow> bool" where
  "scoreLess x y = (Score x > Score y)"

text \<open>\<^verbatim>\<open>RetrieveRelevantMemories\<close>, on the manager \<open>m\<close> and the answer \<open>resp\<close> of the
  language model; \<open>next\<close> is the generator step of the sort.\<close>

definition RetrieveRelevantMemories ::
  "(nat \<Rightarrow> nat) \<Rightarrow> MemoryManager \<Rightarrow> LLMResult \<Rightarrow> int \<Rightarrow> (error + Memory list) option" where
  "RetrieveRelevantMemories next m resp maxResults =
     (case GetAllMemories m of
        None \<Rightarrow> None
      | Some (Inl e, _) \<Rightarrow> Some (Inl (ErrWrap e ''failed to get all memories''))
      | Some (Inr mems, _) \<Rightarrow>
          if length mems = 0 then Some (Inr [])
          else
            (case evaluateRelevance resp mems of
               Inl e \<Rightarrow> Some (Inl (ErrWrap e ''failed to evaluate memory relevance''))
             | Inr relevanceScores \<Rightarrow>
                 (let scoredMemories =
                        map (\<lambda>(memory, s). \<lparr> Memory = memory, Score = s \<rparr>) (zip mems relevanceScores);
                      scoredMemories = sort_Slice next scoreLess scoredMemories;
                      resultCount = int (length scoredMemories);
                      resultCount = (if maxResults > 0 \<and> resultCount > maxResults
                                     then maxResults else resultCount)
                  in Some (Inr (map Memory (take (nat resultCount) scoredMemories))))))"

section \<open>Periodic trigger\<close>

text \<open>
  \<^verbatim>\<open>time.Duration\<close> is a signed 64-bit count of nanoseconds. A reading of
  \<^verbatim>\<open>time.Now()\<close> is modelled by its monotonic clock value in nanoseconds, which is
  what \<^verbatim>\<open>Time.Sub\<close> compares when both operands come from \<^verbatim>\<open>time.Now()\<close>.
  \<^verbatim>\<open>Time.Sub\<close> saturates at the largest and smallest duration.
\<close>

type_synonym Duration = int
type_synonym Instant = int

definition maxDuration :: Duration where
  "maxDuration = 2 ^ 63 - 1"

definition minDuration :: Duration where
  "minDuration = - (2 ^ 63)"

definition Time_Sub :: "Instant \<Rightarrow> Instant \<Rightarrow> Duration" where
  "Time_Sub t u =
     (let d = t - u in
      if d > maxDuration then maxDuration
      else if d < minDuration then minDuration
      else d)"

record PeriodicTrigger =
  interval :: Duration
  lastTime :: Instant

text \<open>\<^verbatim>\<open>NewPeriodicTrigger(interval)\<close>; the second argument is the clock reading of the
  call to \<^verbatim>\<open>time.Now()\<close> inside the constructor.\<close>

definition NewPeriodicTrigger :: "Duration \<Rightarrow> Instant \<Rightarrow> PeriodicTrigger" where
  "NewPeriodicTrigger i now = \<lparr> interval = i, lastTime = now \<rparr>"

text \<open>\<^verbatim>\<open>(*PeriodicTrigger).ShouldTrigger\<close>: the result and the trigger after the call;
  \<open>now\<close> is the clock reading taken by the call.\<close>

definition PeriodicTrigger_ShouldTrigger :: "PeriodicTrigger \<Rightarrow> Instant \<Rightarrow> bool \<times> PeriodicTrigger" where
  "PeriodicTrigger_ShouldTrigger t now =
     (if Time_Sub now (lastTime t) \<ge> interval t
      then (True, t\<lparr> lastTime := now \<rparr>)
      else (False, t))"

definition hour_ns :: Duration where
  "hour_ns = 3600 * 1000000000"

section \<open>Periodic trigger: properties\<close>

lemma ShouldTrigger_fires_iff:
  "fst (PeriodicTrigger_ShouldTrigger t now) = (interval t \<le> Time_Sub now (lastTime t))"
  by (simp add: PeriodicTrigger_ShouldTrigger_def)

lemma ShouldTrigger_resets:
  "fst (PeriodicTrigger_ShouldTrigger t now) = True
     \<Longrightarrow> snd (PeriodicTrigger_ShouldTrigger t now) = t\<lparr> lastTime := now \<rparr>"
  by (simp add: PeriodicTrigger_ShouldTrigger_def split: if_splits)

lemma ShouldTrigger_keeps:
  "fst (PeriodicTrigger_ShouldTrigger t now) = False
     \<Longrightarrow> snd (PeriodicTrigger_ShouldTrigger t now) = t"
  by (simp add: PeriodicTrigger_ShouldTrigger_def split: if_splits)

lemma fresh_trigger_waits:
  "0 \<le> now - t0 \<Longrightarrow> now - t0 < i
     \<Longrightarrow> PeriodicTrigger_ShouldTrigger (NewPeriodicTrigger i t0) now
          = (False, NewPeriodicTrigger i t0)"
  by (simp add: PeriodicTrigger_ShouldTrigger_def NewPeriodicTrigger_def Time_Sub_def
      maxDuration_def minDuration_def Let_def)

text \<open>
  Claim C2 (periodic trigger gating). The claim says that a freshly constructed periodic
  trigger fires on its first evaluation. The constructor stores the construction time as
  the last firing time, so a trigger with a 24 hour interval that is evaluated one
  millisecond after its construction does not fire and is left unchanged.
\<close>

theorem C2_fresh_trigger_first_evaluation_false:
  "PeriodicTrigger_ShouldTrigger (NewPeriodicTrigger (24 * hour_ns) 5000000000) 5001000000
     = (False, \<lparr> interval = 24 * hour_ns, lastTime = 5000000000 \<rparr>)"
  by (simp add: PeriodicTrigger_ShouldTrigger_def NewPeriodicTrigger_def Time_Sub_def
      maxDuration_def minDuration_def hour_ns_def Let_def)

section \<open>The memory manager: properties\<close>

definition unlocked :: "MemoryManager \<Rightarrow> bool" where
  "unlocked m = (\<not> writer (mutex m) \<and> readers (mutex m) = 0)"

text \<open>The condition of \<^verbatim>\<open>RetrieveMemories\<close> as the specification words it.\<close>

definition matchesQuery :: "(string \<Rightarrow> string) \<Rightarrow> string \<Rightarrow> string list \<Rightarrow> Memory \<Rightarrow> bool" where
  "matchesQuery toLower query tags memory =
     ((query = [] \<or> Contains (toLower (Title memory)) (toLower query)
                 \<or> Contains (toLower (Content memory)) (toLower query))
      \<and> (tags = [] \<or> list_ex (\<lambda>tag. list_ex (\<lambda>memoryTag. toLower tag = toLower memoryTag)
                                       (Tags memory)) tags))"

definition asciiLower :: "string \<Rightarrow> string" where
  "asciiLower s = map (\<lambda>c. if 65 \<le> (of_char c :: nat) \<and> (of_char c :: nat) \<le> 90
                           then char_of ((of_char c :: nat) + 32) else c) s"

definition sampleTime :: Time where
  "sampleTime = \<lparr> Year = 2023, Month = 6, Day = 15, Hour = 14, Minute = 30, Second = 0,
                   Nanosecond = 0, ZoneOffset = 0 \<rparr>"

definition sampleMemory :: "string \<Rightarrow> string \<Rightarrow> string list \<Rightarrow> Memory" where
  "sampleMemory i t ts =
     \<lparr> ID = i, Title = t, Content = ''text'', Tags = ts, CreatedAt = sampleTime,
       Source = ''test'', Importance = 5 \<rparr>"

definition sampleStore :: "Memory list" where
  "sampleStore = [sampleMemory ''a'' ''Stop Loss'' [''Risk''],
                  sampleMemory ''b'' ''Trend'' [''trend''],
                  sampleMemory ''c'' ''Loss again'' [''RISK'', ''x'']]"

definition sampleEnv :: ParseEnv where
  "sampleEnv = \<lparr> uuid_New = (\<lambda>i. ''generated''), time_Now = (\<lambda>i j. sampleTime),
                  time_Parse_RFC3339 = (\<lambda>s. None) \<rparr>"

definition freshWorld :: World where
  "freshWorld = \<lparr> dirStat = StatExists, mkdirAllErr = None, fileStat = StatNotExist,
                   fileData = [], readFileErr = None, writeFileErr = None \<rparr>"

definition readOnlyWorld :: World where
  "readOnlyWorld = \<lparr> dirStat = StatExists, mkdirAllErr = None, fileStat = StatExists,
                      fileData = [], readFileErr = None,
                      writeFileErr = Some ''read-only file system'' \<rparr>"

definition readyManager :: "Memory list \<Rightarrow> MemoryManager" where
  "readyManager ms = (NewMemoryManager ''memories.md'')\<lparr> memories := ms, initialized := True \<rparr>"

lemma unlocked_Lock:
  "unlocked m \<Longrightarrow> Lock (mutex m) = Some ((mutex m)\<lparr> writer := True \<rparr>)"
  by (simp add: unlocked_def Lock_def)

lemma unlocked_RLock:
  "unlocked m \<Longrightarrow> RLock (mutex m) = Some ((mutex m)\<lparr> readers := Suc 0 \<rparr>)"
  by (simp add: unlocked_def RLock_def)

lemma Unlock_Lock:
  "unlocked m \<Longrightarrow> Unlock ((mutex m)\<lparr> writer := True \<rparr>) = mutex m"
  by (simp add: unlocked_def Unlock_def)

lemma RUnlock_RLock:
  "unlocked m \<Longrightarrow> RUnlock ((mutex m)\<lparr> readers := Suc 0 \<rparr>) = mutex m"
  by (simp add: unlocked_def RUnlock_def)

lemma saveMemoriesToFile_mutex:
  "saveMemoriesToFile (m\<lparr> mutex := mu \<rparr>) w = saveMemoriesToFile m w"
  by (simp add: saveMemoriesToFile_def)

lemma SaveMemories_unlocked:
  assumes "unlocked m"
  shows "SaveMemories m w = Some (fst (saveMemoriesToFile m w), m, snd (saveMemoriesToFile m w))"
  using assms
  by (simp add: SaveMemories_def unlocked_Lock Unlock_Lock saveMemoriesToFile_mutex case_prod_beta)

lemma SaveMemories_locked: "writer (mutex m) \<Longrightarrow> SaveMemories m w = None"
  by (simp add: SaveMemories_def Lock_def)

lemma AddMemory_uninitialized:
  assumes "unlocked m" "\<not> initialized m"
  shows "AddMemory m w newID now title content tags source importance
           = Some (Inl (ErrNew ''memory manager not initialized''), m, w)"
  using assms
  by (simp add: AddMemory_def unlocked_Lock Unlock_Lock)

lemma GetAllMemories_uninitialized:
  assumes "unlocked m" "\<not> initialized m"
  shows "GetAllMemories m = Some (Inl (ErrNew ''memory manager not initialized''), m)"
  using assms
  by (simp add: GetAllMemories_def unlocked_RLock RUnlock_RLock)

lemma GetAllMemories_initialized:
  assumes "unlocked m" "initialized m"
  shows "GetAllMemories m = Some (Inr (memories m), m)"
  using assms
  by (simp add: GetAllMemories_def unlocked_RLock RUnlock_RLock)

lemma RetrieveMemories_uninitialized:
  assumes "unlocked m" "\<not> initialized m"
  shows "RetrieveMemories toLower m query tags limit
           = Some (Inl (ErrNew ''memory manager not initialized''), m)"
  using assms
  by (simp add: RetrieveMemories_def unlocked_RLock RUnlock_RLock)

lemma AddMemory_initialized:
  fixes m :: MemoryManager and w :: World and newID title content source :: string
    and tags :: "string list" and now :: Time and importance :: int
  assumes "unlocked m" "initialized m"
  defines "memory \<equiv> \<lparr> ID = newID, Title = title, Content = content, Tags = tags,
                       CreatedAt = now, Source = source, Importance = importance \<rparr>"
  defines "m2 \<equiv> m\<lparr> memories := memories m @ [memory] \<rparr>"
  shows "AddMemory m w newID now title content tags source importance
           = Some (case fst (saveMemoriesToFile m2 w) of
                     Some e \<Rightarrow> Inl (ErrWrap e ''failed to save memory to file'')
                   | None \<Rightarrow> Inr memory,
                   m2, snd (saveMemoriesToFile m2 w))"
proof -
  have s: "saveMemoriesToFile (m\<lparr> mutex := (mutex m)\<lparr> writer := True \<rparr>,
                                  memories := memories m @ [memory] \<rparr>) w
             = saveMemoriesToFile m2 w"
    by (simp add: saveMemoriesToFile_def m2_def)
  show ?thesis
    using assms(1,2)
    by (simp add: AddMemory_def unlocked_Lock Unlock_Lock Let_def case_prod_beta s
        memory_def[symmetric] m2_def[symmetric] split: option.splits)
qed

lemma tagLoop_list_ex:
  "tagLoop toLower tags memoryTags
     = list_ex (\<lambda>tag. list_ex (\<lambda>memoryTag. toLower tag = toLower memoryTag) memoryTags) tags"
proof -
  have inner: "memoryTagLoop toLower tag mts = list_ex (\<lambda>mt. toLower tag = toLower mt) mts"
    for tag mts
    by (induction mts) auto
  show ?thesis by (induction tags) (auto simp: inner)
qed

lemma retrieveLoop_filter:
  "retrieveLoop toLower query tags ms results
     = results @ filter (matchesQuery toLower query tags) ms"
  by (induction ms arbitrary: results) (auto simp: matchesQuery_def tagLoop_list_ex)

lemma Initialize_blocks:
  assumes "unlocked m" "\<not> initialized m" "ensureDir w = Inr w1" "fileStat w1 = StatNotExist"
  shows "Initialize env m w = None"
  using assms
  by (simp add: Initialize_def unlocked_Lock SaveMemories_locked)

lemma ensureDir_creatable:
  "dirStat w = StatExists \<or> (dirStat w = StatNotExist \<and> mkdirAllErr w = None)
     \<Longrightarrow> ensureDir w = Inr (w\<lparr> dirStat := StatExists \<rparr>)"
  by (auto simp: ensureDir_def)

lemma Initialize_loads:
  assumes "unlocked m" "\<not> initialized m" "ensureDir w = Inr w1" "fileStat w1 = StatExists"
    "readFileErr w1 = None"
  shows "Initialize env m w
           = Some (None, m\<lparr> memories := (if fileData w1 = [] then []
                                           else parseMemoriesFromMarkdown env (fileData w1)),
                             initialized := True \<rparr>, w1)"
  using assms
  by (simp add: Initialize_def unlocked_Lock Unlock_Lock loadMemoriesFromFile_def os_ReadFile_def)

text \<open>
  Claim C3 (operations before initialization). \<^verbatim>\<open>AddMemory\<close>, \<^verbatim>\<open>GetAllMemories\<close> and
  \<^verbatim>\<open>RetrieveMemories\<close>, called on a manager that is not initialized and whose lock is free,
  return the error "memory manager not initialized" and change nothing. \<^verbatim>\<open>SaveMemories\<close>
  has no such check: it writes the file from the collection it holds and returns what the
  write returns.
\<close>

theorem C3_uninitialized_operations:
  assumes "unlocked m" "\<not> initialized m"
  shows "AddMemory m w newID now title content tags source importance
           = Some (Inl (ErrNew ''memory manager not initialized''), m, w)
       \<and> GetAllMemories m = Some (Inl (ErrNew ''memory manager not initialized''), m)
       \<and> RetrieveMemories toLower m query qtags limit
           = Some (Inl (ErrNew ''memory manager not initialized''), m)
       \<and> SaveMemories m w
           = Some (fst (saveMemoriesToFile m w), m, snd (saveMemoriesToFile m w))"
  using assms
  by (simp add: AddMemory_uninitialized GetAllMemories_uninitialized
      RetrieveMemories_uninitialized SaveMemories_unlocked)

theorem C3_uninitialized_operations_witness:
  "unlocked (NewMemoryManager ''memories.md'')
   \<and> \<not> initialized (NewMemoryManager ''memories.md'')
   \<and> AddMemory (NewMemoryManager ''memories.md'') freshWorld ''id-1'' sampleTime
        ''title'' ''text'' [''tag''] ''test'' 5
        = Some (Inl (ErrNew ''memory manager not initialized''),
                NewMemoryManager ''memories.md'', freshWorld)
   \<and> GetAllMemories (NewMemoryManager ''memories.md'')
        = Some (Inl (ErrNew ''memory manager not initialized''), NewMemoryManager ''memories.md'')
   \<and> RetrieveMemories asciiLower (NewMemoryManager ''memories.md'') ''title'' [] 0
        = Some (Inl (ErrNew ''memory manager not initialized''), NewMemoryManager ''memories.md'')"
  using C3_uninitialized_operations[of "NewMemoryManager ''memories.md''" freshWorld "''id-1''"
      sampleTime "''title''" "''text''" "[''tag'']" "''test''" 5 asciiLower "''title''" "[]" 0]
  by (simp add: unlocked_def NewMemoryManager_def)

text \<open>\<^verbatim>\<open>SaveMemories\<close> on a manager fresh from \<^verbatim>\<open>NewMemoryManager\<close>, never initialized: no
  error, and the file now holds the header.\<close>

theorem C3_SaveMemories_before_Initialize:
  "\<not> initialized (NewMemoryManager ''memories.md'')
   \<and> SaveMemories (NewMemoryManager ''memories.md'') freshWorld
        = Some (None, NewMemoryManager ''memories.md'',
                freshWorld\<lparr> fileStat := StatExists, fileData := fileHeader \<rparr>)"
  by (simp add: SaveMemories_def Lock_def Unlock_def NewMemoryManager_def saveMemoriesToFile_def
      ensureDir_def freshWorld_def generateMemoriesMarkdown_def)

text \<open>
  Claim C4 (first initialization). The backing file does not exist and its directory does.
  \<^verbatim>\<open>Initialize\<close> takes the write lock and, still holding it, calls \<^verbatim>\<open>SaveMemories\<close>, which
  asks for the same lock: the call never returns.
\<close>

theorem C4_Initialize_never_returns:
  "Initialize sampleEnv (NewMemoryManager ''memories.md'') freshWorld = None"
  by (simp add: Initialize_def SaveMemories_def Lock_def NewMemoryManager_def ensureDir_def
      freshWorld_def)

text \<open>
  Claim C6 (basic retrieval). On an initialized manager whose lock is free,
  \<^verbatim>\<open>RetrieveMemories\<close> returns every record when the query and the tags are both empty, and
  otherwise the records that match, in the order of the collection, cut to the first
  \<open>limit\<close> of them when \<open>limit\<close> is positive and smaller than their number.
\<close>

theorem C6_RetrieveMemories:
  assumes "unlocked m" "initialized m"
  shows "RetrieveMemories toLower m query tags limit
           = Some (Inr (if query = [] \<and> tags = [] then memories m
                        else (let found = filter (matchesQuery toLower query tags) (memories m)
                              in if limit > 0 \<and> int (length found) > limit
                                 then take (nat limit) found else found)), m)"
  using assms
  by (simp add: RetrieveMemories_def unlocked_RLock RUnlock_RLock retrieveLoop_filter Let_def)

theorem C6_RetrieveMemories_witness:
  "unlocked (readyManager sampleStore) \<and> initialized (readyManager sampleStore)
   \<and> RetrieveMemories asciiLower (readyManager sampleStore) ''loss'' [''risk''] 1
      = Some (Inr [sampleMemory ''a'' ''Stop Loss'' [''Risk'']], readyManager sampleStore)
   \<and> RetrieveMemories asciiLower (readyManager sampleStore) ''loss'' [''risk''] 0
      = Some (Inr [sampleMemory ''a'' ''Stop Loss'' [''Risk''],
                   sampleMemory ''c'' ''Loss again'' [''RISK'', ''x'']],
              readyManager sampleStore)"
proof -
  have f: "filter (matchesQuery asciiLower ''loss'' [''risk'']) sampleStore
             = [sampleMemory ''a'' ''Stop Loss'' [''Risk''],
                sampleMemory ''c'' ''Loss again'' [''RISK'', ''x'']]"
    by code_simp
  have m: "memories (readyManager sampleStore) = sampleStore"
    "unlocked (readyManager sampleStore)" "initialized (readyManager sampleStore)"
    by (simp_all add: readyManager_def unlocked_def NewMemoryManager_def)
  show ?thesis
    using C6_RetrieveMemories[OF m(2,3), of asciiLower "''loss''" "[''risk'']" 1]
      C6_RetrieveMemories[OF m(2,3), of asciiLower "''loss''" "[''risk'']" 0]
    by (simp add: m f)
qed

text \<open>
  Claim C8 (no rollback). On an initialized manager whose lock is free, when the write
  inside \<^verbatim>\<open>AddMemory\<close> fails the call returns the wrapped error and the new record stays in
  the collection: \<^verbatim>\<open>GetAllMemories\<close> returns it, and a later \<^verbatim>\<open>SaveMemories\<close> that succeeds
  writes it to the file.
\<close>

theorem C8_AddMemory_failed_write:
  assumes "unlocked m" "initialized m"
    and "memory = \<lparr> ID = newID, Title = title, Content = content, Tags = tags,
                     CreatedAt = now, Source = source, Importance = importance \<rparr>"
    and "m' = m\<lparr> memories := memories m @ [memory] \<rparr>"
    and "saveMemoriesToFile m' w = (Some e, w1)"
    and "saveMemoriesToFile m' w2 = (None, w3)"
  shows "AddMemory m w newID now title content tags source importance
           = Some (Inl (ErrWrap e ''failed to save memory to file''), m', w1)
       \<and> GetAllMemories m' = Some (Inr (memories m @ [memory]), m')
       \<and> SaveMemories m' w2 = Some (None, m', w3)
       \<and> fileData w3 = generateMemoriesMarkdown (memories m @ [memory])"
proof -
  have u: "unlocked m'" "initialized m'"
    using assms(1,2,4) by (simp_all add: unlocked_def)
  have a: "AddMemory m w newID now title content tags source importance
             = Some (Inl (ErrWrap e ''failed to save memory to file''), m', w1)"
    using AddMemory_initialized[OF assms(1,2), where w=w and newID=newID and title=title
          and content=content and tags=tags and now=now and source=source
          and importance=importance]
      assms(3,4,5) by simp
  have g: "GetAllMemories m' = Some (Inr (memories m @ [memory]), m')"
    using GetAllMemories_initialized[OF u] assms(4) by simp
  have s: "SaveMemories m' w2 = Some (None, m', w3)"
    using SaveMemories_unlocked[OF u(1), of w2] assms(6) by simp
  have f: "fileData w3 = generateMemoriesMarkdown (memories m @ [memory])"
    using assms(6) assms(4)
    by (auto simp: saveMemoriesToFile_def Let_def split: sum.splits option.splits)
  from a g s f show ?thesis by simp
qed

theorem C8_AddMemory_failed_write_witness:
  "unlocked (readyManager []) \<and> initialized (readyManager [])
   \<and> saveMemoriesToFile (readyManager [sampleMemory ''id-1'' ''title'' [''tag'']]) readOnlyWorld
       = (Some (ErrWrap (ErrOS ''read-only file system'') ''failed to write memory file''),
          readOnlyWorld)
   \<and> AddMemory (readyManager []) readOnlyWorld ''id-1'' sampleTime ''title'' ''text'' [''tag'']
        ''test'' 5
       = Some (Inl (ErrWrap (ErrWrap (ErrOS ''read-only file system'')
                       ''failed to write memory file'') ''failed to save memory to file''),
               readyManager [sampleMemory ''id-1'' ''title'' [''tag'']], readOnlyWorld)
   \<and> GetAllMemories (readyManager [sampleMemory ''id-1'' ''title'' [''tag'']])
       = Some (Inr [sampleMemory ''id-1'' ''title'' [''tag'']],
               readyManager [sampleMemory ''id-1'' ''title'' [''tag'']])
   \<and> SaveMemories (readyManager [sampleMemory ''id-1'' ''title'' [''tag'']]) freshWorld
       = Some (None, readyManager [sampleMemory ''id-1'' ''title'' [''tag'']],
               freshWorld\<lparr> fileStat := StatExists,
                 fileData := generateMemoriesMarkdown [sampleMemory ''id-1'' ''title'' [''tag'']] \<rparr>)"
  using C8_AddMemory_failed_write[of "readyManager []"
      "sampleMemory ''id-1'' ''title'' [''tag'']" "''id-1''" "''title''" "''text''" "[''tag'']"
      sampleTime "''test''" 5 "readyManager [sampleMemory ''id-1'' ''title'' [''tag'']]"
      readOnlyWorld "ErrWrap (ErrOS ''read-only file system'') ''failed to write memory file''"
      readOnlyWorld freshWorld
      "freshWorld\<lparr> fileStat := StatExists,
         fileData := generateMemoriesMarkdown [sampleMemory ''id-1'' ''title'' [''tag'']] \<rparr>"]
  by (simp add: unlocked_def readyManager_def NewMemoryManager_def sampleMemory_def
      saveMemoriesToFile_def ensureDir_def readOnlyWorld_def freshWorld_def)

section \<open>The sort keeps the length\<close>

lemma length_swap [simp]: "length (swap xs i j) = length xs"
  by (simp add: swap_def)

lemma length_insertDown [simp]: "length (insertDown lt xs a j) = length xs"
  by (induction lt xs a j rule: insertDown.induct) (subst insertDown.simps, simp)

lemma length_insertionLoop [simp]: "length (insertionLoop lt xs a b i) = length xs"
  by (induction lt xs a b i rule: insertionLoop.induct) (subst insertionLoop.simps, simp)

lemma length_insertionSort [simp]: "length (insertionSort lt xs a b) = length xs"
  by (simp add: insertionSort_def)

lemma length_siftDown [simp]: "length (siftDown lt xs root hi first) = length xs"
  by (induction lt xs root hi first rule: siftDown.induct)
    (subst siftDown.simps, simp add: Let_def)

lemma length_heapBuild [simp]: "length (heapBuild lt xs hi first k) = length xs"
  by (induction k arbitrary: xs) simp_all

lemma length_heapPop [simp]: "length (heapPop lt xs first k) = length xs"
  by (induction k arbitrary: xs) simp_all

lemma length_heapSort [simp]: "length (heapSort lt xs a b) = length xs"
  by (simp add: heapSort_def Let_def)

lemma length_partitionLoop [simp]: "length (fst (partitionLoop lt xs a i j)) = length xs"
  by (induction lt xs a i j rule: partitionLoop.induct)
    (subst partitionLoop.simps, simp add: Let_def)

lemma length_partition [simp]: "length (fst (partition lt xs a b pivot)) = length xs"
  by (simp add: partition_def Let_def case_prod_beta)

lemma length_partitionEqualLoop [simp]: "length (fst (partitionEqualLoop lt xs a i j)) = length xs"
  by (induction lt xs a i j rule: partitionEqualLoop.induct)
    (subst partitionEqualLoop.simps, simp add: Let_def)

lemma length_partitionEqual [simp]: "length (fst (partitionEqual lt xs a b pivot)) = length xs"
  by (simp add: partitionEqual_def)

lemma length_shiftLeft [simp]: "length (shiftLeft lt xs j) = length xs"
  by (induction lt xs j rule: shiftLeft.induct) (subst shiftLeft.simps, simp)

lemma length_shiftRight [simp]: "length (shiftRight lt xs b j) = length xs"
  by (induction lt xs b j rule: shiftRight.induct) (subst shiftRight.simps, simp)

lemma length_partialInsertionLoop [simp]:
  "length (fst (partialInsertionLoop lt xs a b i steps)) = length xs"
  by (induction steps arbitrary: xs i) (simp_all add: Let_def)

lemma length_partialInsertionSort [simp]:
  "length (fst (partialInsertionSort lt xs a b)) = length xs"
  by (simp add: partialInsertionSort_def)

lemma length_breakLoop [simp]:
  "length (breakLoop next xs a len modulus idx random i k) = length xs"
  by (induction k arbitrary: xs random i) (simp_all add: Let_def)

lemma length_breakPatterns [simp]: "length (breakPatterns next xs a b) = length xs"
  by (simp add: breakPatterns_def Let_def)

lemma length_reverseRangeLoop [simp]: "length (reverseRangeLoop xs i j) = length xs"
  by (induction xs i j rule: reverseRangeLoop.induct) (subst reverseRangeLoop.simps, simp)

lemma length_reverseRange [simp]: "length (reverseRange xs a b) = length xs"
  by (simp add: reverseRange_def)

lemma length_pdqPrepare [simp]:
  "length (fst (pdqPrepare next lt xs a b limit wb wp)) = length xs"
  by (simp add: pdqPrepare_def Let_def case_prod_beta)

lemma length_pdqsort [simp]: "length (pdqsort next lt xs a b limit wb wp) = length xs"
proof (induction "next" lt xs a b limit wb wp rule: pdqsort_rounds)
  case (small "next" lt xs a b limit wb wp)
  then show ?case by (simp add: pdqsort_small)
next
  case (heap "next" lt xs a b limit wb wp)
  then show ?case by (simp add: pdqsort_heap)
next
  case (finished "next" lt xs a b limit wb wp xs1 pivot limit1)
  then show ?case
    using length_pdqPrepare[of "next" lt xs a b limit wb wp] by (simp add: pdqsort_done)
next
  case (equal "next" lt xs a b limit wb wp xs1 pivot limit1 xs2 mid)
  then show ?case
    using length_pdqPrepare[of "next" lt xs a b limit wb wp]
      length_partitionEqual[of lt xs1 a b pivot]
    by (simp add: pdqsort_equal)
next
  case (left "next" lt xs a b limit wb wp xs1 pivot limit1 xs2 mid ap)
  then show ?case
    using length_pdqPrepare[of "next" lt xs a b limit wb wp]
      length_partition[of lt xs1 a b pivot]
    by (simp add: pdqsort_left)
next
  case (right "next" lt xs a b limit wb wp xs1 pivot limit1 xs2 mid ap)
  then show ?case
    using length_pdqPrepare[of "next" lt xs a b limit wb wp]
      length_partition[of lt xs1 a b pivot]
    by (simp add: pdqsort_right)
qed

lemma length_sort_Slice [simp]: "length (sort_Slice next lt xs) = length xs"
  by (simp add: sort_Slice_def)


section \<open>Relevance scores\<close>

text \<open>The score the specification gives to one line of the reply: the integer read from
  it, zero when none can be read, brought into the range from 0 to 10.\<close>

definition lineScore :: "string \<Rightarrow> int" where
  "lineScore l = clampScore (case Sscanf_d (TrimSpace l) of Some v \<Rightarrow> v | None \<Rightarrow> 0)"

definition positionalScores :: "string \<Rightarrow> nat \<Rightarrow> int list" where
  "positionalScores responseText n =
     map (\<lambda>i. if i < length (Split responseText NL)
               then lineScore (Split responseText NL ! i) else 0) [0..<n]"

lemma clampScore_range: "0 \<le> clampScore s \<and> clampScore s \<le> 10"
  by (simp add: clampScore_def)

lemma lineScore_blank: "TrimSpace l = [] \<Longrightarrow> lineScore l = 0"
  by (simp add: lineScore_def Sscanf_d_def clampScore_def)

lemma length_scoreLoop [simp]: "length (scoreLoop i ls scores) = length scores"
  by (induction ls arbitrary: i scores) (auto simp: Let_def)

lemma scoreLoop_nth:
  "j < length scores \<Longrightarrow>
     scoreLoop i ls scores ! j
       = (if i \<le> j \<and> j < i + length ls \<and> TrimSpace (ls ! (j - i)) \<noteq> []
          then lineScore (ls ! (j - i)) else scores ! j)"
proof (induction ls arbitrary: i scores)
  case Nil
  then show ?case by simp
next
  case (Cons l ls)
  show ?case
  proof (cases "i < length scores")
    case False
    with Cons.prems show ?thesis by simp
  next
    case True
    show ?thesis
    proof (cases "j = i")
      case True
      with \<open>i < length scores\<close> Cons.IH[where scores=scores and i="Suc i"]
        Cons.IH[where scores="scores[i := lineScore l]" and i="Suc i"]
      show ?thesis by (simp add: Let_def lineScore_def)
    next
      case False
      then have "i \<le> j \<Longrightarrow> (l # ls) ! (j - i) = ls ! (j - Suc i)"
        by (simp add: nth_Cons')
      with False True Cons.prems Cons.IH[where scores=scores and i="Suc i"]
        Cons.IH[where scores="scores[i := lineScore l]" and i="Suc i"]
      show ?thesis by (auto simp: Let_def lineScore_def)
    qed
  qed
qed

lemma length_padLoop [simp]: "length (padLoop k scores) = length scores"
  by (induction k scores rule: padLoop.induct) (subst padLoop.simps, simp)

lemma padLoop_nth:
  "j < length scores \<Longrightarrow> padLoop k scores ! j = (if k \<le> j then 0 else scores ! j)"
proof (induction k scores rule: padLoop.induct)
  case (1 k scores)
  show ?case
  proof (cases "k < length scores")
    case True
    with 1 show ?thesis by (subst padLoop.simps) (auto simp: nth_list_update)
  next
    case False
    with 1(2) show ?thesis by (subst padLoop.simps) simp
  qed
qed

lemma parseScores_positional: "parseScores responseText n = positionalScores responseText n"
proof (rule nth_equalityI)
  show "length (parseScores responseText n) = length (positionalScores responseText n)"
    by (simp add: parseScores_def positionalScores_def Let_def)
next
  fix j assume "j < length (parseScores responseText n)"
  then have j: "j < n" by (simp add: parseScores_def Let_def)
  then show "parseScores responseText n ! j = positionalScores responseText n ! j"
    by (simp add: parseScores_def positionalScores_def Let_def padLoop_nth scoreLoop_nth
        lineScore_blank)
qed

lemma positionalScores_range:
  "list_all (\<lambda>s. 0 \<le> s \<and> s \<le> 10) (positionalScores responseText n)"
  by (auto simp: positionalScores_def list_all_iff lineScore_def clampScore_def)

text \<open>
  Claim C7 (parsing the scores). For a reply whose first choice has a non-empty text, the
  evaluation does not fail. The score of record \<open>i\<close> is the score of line \<open>i\<close> of the text
  (the integer read from the line, zero when none can be read, brought into the range
  from 0 to 10) when the text has such a line, and zero otherwise.
\<close>

theorem C7_scores_positional:
  assumes "responseText \<noteq> []"
  shows "evaluateRelevance (LLMChoices (responseText # others)) mems
           = Inr (positionalScores responseText (length mems))
       \<and> list_all (\<lambda>s. 0 \<le> s \<and> s \<le> 10) (positionalScores responseText (length mems))"
  using assms
  by (simp add: evaluateRelevance_def parseScores_positional positionalScores_range)

theorem C7_scores_positional_witness:
  "''8 points'' @ NL @ ''abc'' @ NL @ ''-3'' @ NL @ ''77'' \<noteq> []
   \<and> evaluateRelevance (LLMChoices [''8 points'' @ NL @ ''abc'' @ NL @ ''-3'' @ NL @ ''77''])
        (replicate 6 (sampleMemory ''a'' ''t'' []))
       = Inr [8, 0, 0, 10, 0, 0]"
proof -
  have e: "positionalScores (''8 points'' @ NL @ ''abc'' @ NL @ ''-3'' @ NL @ ''77'') 6
             = [8, 0, 0, 10, 0, 0]"
    by code_simp
  show ?thesis
    using C7_scores_positional[of "''8 points'' @ NL @ ''abc'' @ NL @ ''-3'' @ NL @ ''77''"
        "[]" "replicate 6 (sampleMemory ''a'' ''t'' [])"] e
    by simp
qed

text \<open>
  Claim C9 (size of the result). On an initialized manager with at least one record,
  whenever \<^verbatim>\<open>RetrieveRelevantMemories\<close> succeeds its result has as many records as the store,
  or \<open>maxResults\<close> of them when that is positive and smaller: no record is dropped for a
  low score.
\<close>

theorem C9_result_length:
  assumes "unlocked m" "initialized m" "memories m \<noteq> []"
    and "RetrieveRelevantMemories next m resp maxResults = Some (Inr result)"
  shows "length result = (if maxResults > 0 then min (length (memories m)) (nat maxResults)
                          else length (memories m))"
proof -
  obtain scores where s: "evaluateRelevance resp (memories m) = Inr scores"
    using assms by (auto simp: RetrieveRelevantMemories_def GetAllMemories_initialized
        split: sum.splits)
  then have l: "length scores = length (memories m)"
    by (auto simp: evaluateRelevance_def parseScores_positional positionalScores_def
        split: LLMResult.splits list.splits if_splits)
  show ?thesis
    using assms s l
    by (auto simp: RetrieveRelevantMemories_def GetAllMemories_initialized Let_def min_def)
qed

theorem C9_result_length_witness:
  "unlocked (readyManager sampleStore) \<and> initialized (readyManager sampleStore)
   \<and> memories (readyManager sampleStore) \<noteq> []
   \<and> RetrieveRelevantMemories xorshift_Next (readyManager sampleStore)
        (LLMChoices [''0'' @ NL @ ''0'' @ NL @ ''0'']) 2
       = Some (Inr [sampleMemory ''a'' ''Stop Loss'' [''Risk''],
                    sampleMemory ''b'' ''Trend'' [''trend'']])
   \<and> length [sampleMemory ''a'' ''Stop Loss'' [''Risk''], sampleMemory ''b'' ''Trend'' [''trend'']]
       = min (length (memories (readyManager sampleStore))) (nat 2)"
proof -
  have m: "unlocked (readyManager sampleStore)" "initialized (readyManager sampleStore)"
    "memories (readyManager sampleStore) \<noteq> []"
    by (simp_all add: readyManager_def unlocked_def NewMemoryManager_def sampleStore_def)
  have r: "RetrieveRelevantMemories xorshift_Next (readyManager sampleStore)
        (LLMChoices [''0'' @ NL @ ''0'' @ NL @ ''0'']) 2
       = Some (Inr [sampleMemory ''a'' ''Stop Loss'' [''Risk''],
                    sampleMemory ''b'' ''Trend'' [''trend'']])"
    by code_simp
  show ?thesis
    using C9_result_length[OF m r] m r by simp
qed

section \<open>The insertion sort is the stable sort\<close>

text \<open>Moving \<open>x\<close> down into the sorted range before it, on the range reversed: \<open>x\<close> passes
  the elements it is less than and stops at the first one it is not less than.\<close>

fun insRev :: "('a \<Rightarrow> 'a \<Rightarrow> bool) \<Rightarrow> 'a \<Rightarrow> 'a list \<Rightarrow> 'a list" where
  "insRev lt x [] = [x]"
| "insRev lt x (y # r) = (if lt x y then y # insRev lt x r else x # y # r)"

definition insertLast :: "('a \<Rightarrow> 'a \<Rightarrow> bool) \<Rightarrow> 'a list \<Rightarrow> 'a \<Rightarrow> 'a list" where
  "insertLast lt ys x = rev (insRev lt x (rev ys))"

definition isort :: "('a \<Rightarrow> 'a \<Rightarrow> bool) \<Rightarrow> 'a list \<Rightarrow> 'a list" where
  "isort lt xs = foldl (insertLast lt) [] xs"

lemma swap_adjacent:
  "swap (A @ y # x # zs) (Suc (length A)) (length A) = A @ x # y # zs"
  by (simp add: swap_def list_update_append nth_append)

lemma length_insRev [simp]: "length (insRev lt x r) = Suc (length r)"
  by (induction r) auto

lemma length_insertLast [simp]: "length (insertLast lt ys x) = Suc (length ys)"
  by (simp add: insertLast_def)

lemma insertDown_append:
  "insertDown lt (A @ ys @ x # zs) (length A) (length A + length ys)
     = A @ insertLast lt ys x @ zs"
proof (induction ys arbitrary: zs rule: rev_induct)
  case Nil
  show ?case by (subst insertDown.simps) (simp add: insertLast_def)
next
  case (snoc y ys)
  let ?xs = "A @ (ys @ [y]) @ x # zs"
  let ?j = "length A + length (ys @ [y])"
  have xj: "?xs ! ?j = x" by (simp add: nth_append)
  have xj1: "?xs ! (?j - 1) = y" by (simp add: nth_append)
  show ?case
  proof (cases "lt x y")
    case True
    have "swap ?xs ?j (?j - 1) = (A @ ys) @ x # y # zs"
      using swap_adjacent[of "A @ ys" y x zs] by simp
    then have "insertDown lt ?xs (length A) ?j
                 = insertDown lt (A @ ys @ x # y # zs) (length A) (length A + length ys)"
      using True xj xj1 by (subst insertDown.simps) simp
    also have "\<dots> = A @ insertLast lt ys x @ y # zs" by (rule snoc.IH)
    finally show ?thesis using True by (simp add: insertLast_def)
  next
    case False
    then have "insertDown lt ?xs (length A) ?j = ?xs"
      using xj xj1 by (subst insertDown.simps) simp
    with False show ?thesis by (simp add: insertLast_def)
  qed
qed

lemma insertionLoop_append:
  "insertionLoop lt (A @ P @ R @ Z) (length A) (length A + length P + length R)
       (length A + length P)
     = A @ foldl (insertLast lt) P R @ Z"
proof (induction R arbitrary: P)
  case Nil
  show ?case by (subst insertionLoop.simps) simp
next
  case (Cons x R)
  have "insertDown lt (A @ P @ x # (R @ Z)) (length A) (length A + length P)
          = A @ insertLast lt P x @ R @ Z"
    by (rule insertDown_append)
  then have "insertionLoop lt (A @ P @ (x # R) @ Z) (length A)
               (length A + length P + length (x # R)) (length A + length P)
           = insertionLoop lt (A @ insertLast lt P x @ R @ Z) (length A)
               (length A + length (insertLast lt P x) + length R)
               (length A + length (insertLast lt P x))"
    by (subst insertionLoop.simps) simp
  also have "\<dots> = A @ foldl (insertLast lt) (insertLast lt P x) R @ Z"
    by (rule Cons.IH)
  finally show ?case by simp
qed

lemma insertionSort_append:
  "insertionSort lt (A @ M @ Z) (length A) (length A + length M) = A @ isort lt M @ Z"
proof (cases M)
  case Nil
  then show ?thesis
    by (simp add: insertionSort_def isort_def) (subst insertionLoop.simps, simp)
next
  case (Cons x R)
  have "insertionLoop lt (A @ [x] @ R @ Z) (length A) (length A + length [x] + length R)
          (length A + length [x]) = A @ foldl (insertLast lt) [x] R @ Z"
    by (rule insertionLoop_append)
  then show ?thesis
    using Cons by (simp add: insertionSort_def isort_def insertLast_def)
qed

lemma insertionSort_whole: "insertionSort lt xs 0 (length xs) = isort lt xs"
  using insertionSort_append[of lt "[]" xs "[]"] by simp

subsection \<open>Sorting by a key\<close>

lemma mset_insRev [simp]: "mset (insRev lt x r) = add_mset x (mset r)"
  by (induction r) auto

lemma set_insRev [simp]: "set (insRev lt x r) = insert x (set r)"
  by (induction r) auto

lemma mset_insertLast [simp]: "mset (insertLast lt ys x) = add_mset x (mset ys)"
  by (simp add: insertLast_def)

lemma mset_foldl_insertLast: "mset (foldl (insertLast lt) P R) = mset P + mset R"
  by (induction R arbitrary: P) auto

lemma mset_isort [simp]: "mset (isort lt xs) = mset xs"
  by (simp add: isort_def mset_foldl_insertLast)

lemma sorted_insRev:
  fixes f :: "'a \<Rightarrow> 'k::linorder"
  shows "sorted (map f (rev r)) \<Longrightarrow> sorted (map f (rev (insRev (\<lambda>x y. f x < f y) x r)))"
proof (induction r)
  case Nil
  then show ?case by simp
next
  case (Cons y r)
  then have s: "sorted (map f (rev r))" "\<forall>z\<in>set r. f z \<le> f y"
    by (auto simp: sorted_append)
  show ?case
  proof (cases "f x < f y")
    case True
    with Cons.IH[OF s(1)] s(2) show ?thesis
      by (auto simp: sorted_append)
  next
    case False
    with Cons.prems s show ?thesis
      by (auto simp: sorted_append)
  qed
qed

lemma filter_insRev:
  fixes f :: "'a \<Rightarrow> 'k::linorder"
  shows "filter (\<lambda>z. f z = k) (insRev (\<lambda>x y. f x < f y) x r)
           = (if f x = k then [x] else []) @ filter (\<lambda>z. f z = k) r"
  by (induction r) auto

lemma sorted_foldl_insertLast:
  fixes f :: "'a \<Rightarrow> 'k::linorder"
  shows "sorted (map f P) \<Longrightarrow> sorted (map f (foldl (insertLast (\<lambda>x y. f x < f y)) P R))"
proof (induction R arbitrary: P)
  case Nil
  then show ?case by simp
next
  case (Cons x R)
  have "sorted (map f (insertLast (\<lambda>x y. f x < f y) P x))"
    using sorted_insRev[where f=f and r="rev P" and x=x] Cons.prems
    by (simp add: insertLast_def)
  then show ?case using Cons.IH by simp
qed

lemma filter_foldl_insertLast:
  fixes f :: "'a \<Rightarrow> 'k::linorder"
  shows "filter (\<lambda>z. f z = k) (foldl (insertLast (\<lambda>x y. f x < f y)) P R)
           = filter (\<lambda>z. f z = k) (P @ R)"
proof (induction R arbitrary: P)
  case Nil
  then show ?case by simp
next
  case (Cons x R)
  have "filter (\<lambda>z. f z = k) (insertLast (\<lambda>x y. f x < f y) P x)
          = filter (\<lambda>z. f z = k) (P @ [x])"
  proof -
    have "filter (\<lambda>z. f z = k) (insertLast (\<lambda>x y. f x < f y) P x)
            = rev (filter (\<lambda>z. f z = k) (insRev (\<lambda>x y. f x < f y) x (rev P)))"
      by (simp add: insertLast_def rev_filter)
    also have "\<dots> = rev ((if f x = k then [x] else []) @ filter (\<lambda>z. f z = k) (rev P))"
      by (simp only: filter_insRev)
    also have "\<dots> = filter (\<lambda>z. f z = k) (P @ [x])"
      by (simp add: rev_filter[symmetric])
    finally show ?thesis .
  qed
  then show ?case using Cons.IH[of "insertLast (\<lambda>x y. f x < f y) P x"] by simp
qed

lemma isort_sort_key:
  fixes f :: "'a \<Rightarrow> 'k::linorder"
  shows "isort (\<lambda>x y. f x < f y) xs = sort_key f xs"
proof (rule properties_for_sort_key[symmetric])
  show "mset (isort (\<lambda>x y. f x < f y) xs) = mset xs" by simp
next
  fix k assume "k \<in> set (isort (\<lambda>x y. f x < f y) xs)"
  show "filter (\<lambda>x. f k = f x) (isort (\<lambda>x y. f x < f y) xs) = filter (\<lambda>x. f k = f x) xs"
    using filter_foldl_insertLast[where f=f and k="f k" and P="[]" and R=xs]
    by (simp add: isort_def eq_commute)
next
  show "sorted (map f (isort (\<lambda>x y. f x < f y) xs))"
    using sorted_foldl_insertLast[where f=f and P="[]" and R=xs] by (simp add: isort_def)
qed

lemma sort_Slice_small:
  fixes f :: "'a \<Rightarrow> 'k::linorder"
  assumes "length xs \<le> 12"
  shows "sort_Slice next (\<lambda>x y. f x < f y) xs = sort_key f xs"
  using assms isort_sort_key[where f=f]
  by (simp add: sort_Slice_def pdqsort_small insertionSort_whole)


section \<open>Ranking by relevance\<close>

definition scoredList :: "Memory list \<Rightarrow> int list \<Rightarrow> ScoredMemory list" where
  "scoredList mems scores = map (\<lambda>(memory, s). \<lparr> Memory = memory, Score = s \<rparr>) (zip mems scores)"

definition store13 :: "Memory list" where
  "store13 = map (\<lambda>c. sampleMemory [c] ''lesson'' []) ''abcdefghijklm''"

definition reply13 :: string where
  "reply13 = concat (replicate 12 (''5'' @ NL)) @ ''9''"

lemma scoreLess_key: "scoreLess = (\<lambda>x y. - Score x < - Score y)"
  by (intro ext) (simp add: scoreLess_def)

lemma RetrieveRelevantMemories_scored:
  assumes "unlocked m" "initialized m" "memories m \<noteq> []"
    and "evaluateRelevance resp (memories m) = Inr scores"
  shows "RetrieveRelevantMemories next m resp maxResults
           = Some (Inr (map Memory
               (take (if maxResults > 0 \<and> int (length (memories m)) > maxResults
                      then nat maxResults else length (memories m))
                  (sort_Slice next scoreLess (scoredList (memories m) scores)))))"
proof -
  have l: "length scores = length (memories m)"
    using assms(4)
    by (auto simp: evaluateRelevance_def parseScores_positional positionalScores_def
        split: LLMResult.splits list.splits if_splits)
  show ?thesis
    using assms l
    by (simp add: RetrieveRelevantMemories_def GetAllMemories_initialized Let_def
        scoredList_def)
qed

section \<open>Sorting a range in place\<close>

text \<open>\<open>ys\<close> is \<open>xs\<close> with the elements of the range from \<open>a\<close> up to \<open>b\<close> rearranged.\<close>

definition rperm :: "'a list \<Rightarrow> 'a list \<Rightarrow> nat \<Rightarrow> nat \<Rightarrow> bool" where
  "rperm xs ys a b = (mset ys = mset xs \<and> (\<forall>i. i < a \<or> b \<le> i \<longrightarrow> ys ! i = xs ! i))"

definition rangeAll :: "('a \<Rightarrow> bool) \<Rightarrow> 'a list \<Rightarrow> nat \<Rightarrow> nat \<Rightarrow> bool" where
  "rangeAll P xs a b = (\<forall>i. a \<le> i \<and> i < b \<longrightarrow> P (xs ! i))"

definition rsorted :: "('a \<Rightarrow> 'k::linorder) \<Rightarrow> 'a list \<Rightarrow> nat \<Rightarrow> nat \<Rightarrow> bool" where
  "rsorted f xs a b = (\<forall>i j. a \<le> i \<and> i \<le> j \<and> j < b \<longrightarrow> f (xs ! i) \<le> f (xs ! j))"

abbreviation seg :: "'a list \<Rightarrow> nat \<Rightarrow> nat \<Rightarrow> 'a list" where
  "seg xs a b \<equiv> take (b - a) (drop a xs)"

abbreviation keyLess :: "('a \<Rightarrow> 'k::linorder) \<Rightarrow> 'a \<Rightarrow> 'a \<Rightarrow> bool" where
  "keyLess f \<equiv> (\<lambda>x y. f x < f y)"

lemma rperm_refl [simp]: "rperm xs xs a b"
  by (simp add: rperm_def)

lemma rperm_length: "rperm xs ys a b \<Longrightarrow> length ys = length xs"
  by (metis rperm_def size_mset)

lemma rperm_trans: "rperm xs ys a b \<Longrightarrow> rperm ys zs a b \<Longrightarrow> rperm xs zs a b"
  by (simp add: rperm_def)

lemma rperm_mono: "rperm xs ys a' b' \<Longrightarrow> a \<le> a' \<Longrightarrow> b' \<le> b \<Longrightarrow> rperm xs ys a b"
  by (auto simp: rperm_def)

lemma rperm_outside: "rperm xs ys a b \<Longrightarrow> i < a \<or> b \<le> i \<Longrightarrow> ys ! i = xs ! i"
  by (auto simp: rperm_def)

lemma rperm_swap:
  assumes "a \<le> i" "i < b" "a \<le> j" "j < b" "b \<le> length xs"
  shows "rperm xs (swap xs i j) a b"
proof -
  have "mset (swap xs i j) = mset xs"
    using assms mset_swap[of j xs i] by (simp add: swap_def)
  moreover have "swap xs i j ! k = xs ! k" if "k < a \<or> b \<le> k" for k
    using that assms by (auto simp: swap_def)
  ultimately show ?thesis by (simp add: rperm_def)
qed

lemma swap_nth:
  "i < length xs \<Longrightarrow> j < length xs \<Longrightarrow>
     swap xs i j ! k = (if k = j then xs ! i else if k = i then xs ! j else xs ! k)"
  by (auto simp: swap_def nth_list_update)

lemma split_range:
  assumes "a \<le> b" "b \<le> length xs"
  shows "xs = take a xs @ seg xs a b @ drop b xs"
proof -
  have "seg xs a b @ drop (b - a) (drop a xs) = drop a xs" by (rule append_take_drop_id)
  moreover have "drop (b - a) (drop a xs) = drop b xs" using assms by simp
  moreover have "take a xs @ drop a xs = xs" by (rule append_take_drop_id)
  ultimately show ?thesis by metis
qed

lemma rperm_seg:
  assumes "rperm xs ys a b" "a \<le> b" "b \<le> length xs"
  shows "mset (seg ys a b) = mset (seg xs a b)"
proof -
  have l: "length ys = length xs" using assms(1) by (rule rperm_length)
  have t: "take a ys = take a xs"
    using assms l by (intro nth_take_lemma) (auto simp: rperm_def)
  have d: "drop b ys = drop b xs"
    using assms l by (intro nth_equalityI) (auto simp: rperm_def)
  have "mset ys = mset (take a ys) + mset (seg ys a b) + mset (drop b ys)"
    using split_range[of a b ys] assms l by (metis mset_append add.assoc)
  moreover have "mset xs = mset (take a xs) + mset (seg xs a b) + mset (drop b xs)"
    using split_range[of a b xs] assms by (metis mset_append add.assoc)
  moreover have "mset ys = mset xs" using assms(1) by (simp add: rperm_def)
  ultimately show ?thesis using t d by simp
qed

lemma seg_nth: "a \<le> b \<Longrightarrow> b \<le> length xs \<Longrightarrow> k < b - a \<Longrightarrow> seg xs a b ! k = xs ! (a + k)"
  by simp

lemma set_seg:
  assumes "a \<le> b" "b \<le> length xs"
  shows "set (seg xs a b) = {xs ! i | i. a \<le> i \<and> i < b}"
proof (intro set_eqI iffI)
  fix x assume "x \<in> set (seg xs a b)"
  then obtain k where k: "k < length (seg xs a b)" "seg xs a b ! k = x"
    by (auto simp: in_set_conv_nth)
  then have "k < b - a" using assms by simp
  with k assms have "x = xs ! (a + k)" "a \<le> a + k" "a + k < b" by auto
  then show "x \<in> {xs ! i | i. a \<le> i \<and> i < b}" by blast
next
  fix x assume "x \<in> {xs ! i | i. a \<le> i \<and> i < b}"
  then obtain i where i: "x = xs ! i" "a \<le> i" "i < b" by auto
  then have "i - a < length (seg xs a b)" "seg xs a b ! (i - a) = x"
    using assms by auto
  then show "x \<in> set (seg xs a b)" by (metis nth_mem)
qed

lemma rangeAll_set:
  assumes "a \<le> b" "b \<le> length xs"
  shows "rangeAll P xs a b = (\<forall>x\<in>set (seg xs a b). P x)"
  using set_seg[OF assms] by (auto simp: rangeAll_def)

lemma rperm_rangeAll:
  assumes "rperm xs ys a b" "a \<le> b" "b \<le> length xs" "rangeAll P xs a b"
  shows "rangeAll P ys a b"
proof -
  have "set (seg ys a b) = set (seg xs a b)"
    using rperm_seg[OF assms(1,2,3)] by (metis set_mset_mset)
  then show ?thesis
    using assms rangeAll_set[of a b xs P] rangeAll_set[of a b ys P] rperm_length[OF assms(1)]
    by simp
qed

lemma rangeAll_mono:
  "rangeAll P xs a b \<Longrightarrow> a \<le> a' \<Longrightarrow> b' \<le> b \<Longrightarrow> rangeAll P xs a' b'"
  by (auto simp: rangeAll_def)

text \<open>A range replaced by a sorted rearrangement of itself.\<close>

lemma replace_range:
  assumes "a \<le> b" "b \<le> length xs" "mset S = mset (seg xs a b)"
  shows "rperm xs (take a xs @ S @ drop b xs) a b"
    and "sorted (map f S) \<Longrightarrow> rsorted f (take a xs @ S @ drop b xs) a b"
proof -
  have lS: "length S = b - a"
    using assms by (metis length_take length_drop size_mset min.absorb2 diff_le_mono)
  let ?ys = "take a xs @ S @ drop b xs"
  have m: "mset ?ys = mset xs"
    using split_range[OF assms(1,2)] assms(3) by (metis mset_append)
  have o: "?ys ! i = xs ! i" if "i < a \<or> b \<le> i" for i
  proof (cases "i < a")
    case True
    with assms show ?thesis by (simp add: nth_append)
  next
    case False
    with that have "b \<le> i" by simp
    with assms lS show ?thesis by (auto simp: nth_append)
  qed
  show "rperm xs ?ys a b" using m o by (simp add: rperm_def)
  show "rsorted f ?ys a b" if s: "sorted (map f S)"
  proof -
    have "f (?ys ! i) \<le> f (?ys ! j)" if "a \<le> i" "i \<le> j" "j < b" for i j
    proof -
      have "?ys ! i = S ! (i - a)" "?ys ! j = S ! (j - a)"
        using that assms lS by (auto simp: nth_append)
      moreover have "map f S ! (i - a) \<le> map f S ! (j - a)"
        using s that lS by (intro sorted_nth_mono) auto
      ultimately show ?thesis using that lS by simp
    qed
    then show ?thesis by (simp add: rsorted_def)
  qed
qed

lemma insertionSort_range:
  assumes "a \<le> b" "b \<le> length xs"
  shows "insertionSort (keyLess f) xs a b = take a xs @ sort_key f (seg xs a b) @ drop b xs"
proof -
  have "insertionSort (keyLess f) (take a xs @ seg xs a b @ drop b xs)
          (length (take a xs)) (length (take a xs) + length (seg xs a b))
        = take a xs @ isort (keyLess f) (seg xs a b) @ drop b xs"
    by (rule insertionSort_append)
  moreover have "length (take a xs) = a" "length (take a xs) + length (seg xs a b) = b"
    using assms by simp_all
  ultimately show ?thesis
    using split_range[OF assms] by (simp add: isort_sort_key)
qed

lemma insertionSort_correct:
  assumes "a \<le> b" "b \<le> length xs"
  shows "rperm xs (insertionSort (keyLess f) xs a b) a b"
    and "rsorted f (insertionSort (keyLess f) xs a b) a b"
proof -
  have m: "mset (sort_key f (seg xs a b)) = mset (seg xs a b)" by simp
  have s: "sorted (map f (sort_key f (seg xs a b)))" by simp
  show "rperm xs (insertionSort (keyLess f) xs a b) a b"
    using replace_range(1)[OF assms m] by (simp add: insertionSort_range[OF assms])
  show "rsorted f (insertionSort (keyLess f) xs a b) a b"
    using replace_range(2)[OF assms m s] by (simp add: insertionSort_range[OF assms])
qed

section \<open>Partitioning\<close>

lemma scanUp_all:
  "i \<le> k \<Longrightarrow> k < scanUp lt xs a i j \<Longrightarrow> lt (xs ! k) (xs ! a)"
proof (induction lt xs a i j rule: scanUp.induct)
  case (1 lt xs a i j)
  show ?case
  proof (cases "i \<le> j \<and> lt (xs ! i) (xs ! a)")
    case True
    then have e: "scanUp lt xs a i j = scanUp lt xs a (i + 1) j"
      by (subst scanUp.simps) simp
    show ?thesis
    proof (cases "k = i")
      case True
      with \<open>i \<le> j \<and> lt (xs ! i) (xs ! a)\<close> show ?thesis by simp
    next
      case False
      with 1(2) have "i + 1 \<le> k" by simp
      with 1(1)[OF True this] 1(3) e show ?thesis by simp
    qed
  next
    case False
    then have "scanUp lt xs a i j = i" by (subst scanUp.simps) auto
    with 1(2,3) show ?thesis by simp
  qed
qed

lemma scanDown_all:
  "scanDown lt xs a i j < k \<Longrightarrow> k \<le> j \<Longrightarrow> \<not> lt (xs ! k) (xs ! a)"
proof (induction lt xs a i j rule: scanDown.induct)
  case (1 lt xs a i j)
  show ?case
  proof (cases "i \<le> j \<and> 0 < j \<and> \<not> lt (xs ! j) (xs ! a)")
    case True
    then have e: "scanDown lt xs a i j = scanDown lt xs a i (j - 1)"
      by (subst scanDown.simps) simp
    show ?thesis
    proof (cases "k = j")
      case True
      with \<open>i \<le> j \<and> 0 < j \<and> \<not> lt (xs ! j) (xs ! a)\<close> show ?thesis by simp
    next
      case False
      with 1(3) have "k \<le> j - 1" by simp
      with 1(1)[OF True _ this] 1(2) e show ?thesis by simp
    qed
  next
    case False
    then have "scanDown lt xs a i j = j" by (subst scanDown.simps) auto
    with 1(2,3) show ?thesis by simp
  qed
qed

lemma partitionLoop_spec:
  assumes "a < i" "i \<le> j + 1" "j < b" "b \<le> length xs"
    and "\<forall>k. a < k \<and> k < i \<longrightarrow> lt (xs ! k) (xs ! a)"
    and "\<forall>k. j < k \<and> k < b \<longrightarrow> \<not> lt (xs ! k) (xs ! a)"
    and "partitionLoop lt xs a i j = (ys, m)"
  shows "rperm xs ys (a + 1) b \<and> i \<le> m + 1 \<and> m \<le> j
       \<and> (\<forall>k. a < k \<and> k \<le> m \<longrightarrow> lt (ys ! k) (ys ! a))
       \<and> (\<forall>k. m < k \<and> k < b \<longrightarrow> \<not> lt (ys ! k) (ys ! a))"
  using assms
proof (induction lt xs a i j arbitrary: ys m rule: partitionLoop.induct)
  case (1 lt xs a i j)
  let ?i = "scanUp lt xs a i j"
  let ?j = "scanDown lt xs a ?i j"
  have pos: "0 < i" using 1(2) by simp
  note sm = scan_meet[OF pos 1(3), where lt=lt and xs=xs and a=a]
  have upall: "\<forall>k. a < k \<and> k < ?i \<longrightarrow> lt (xs ! k) (xs ! a)"
  proof (intro allI impI)
    fix k assume k: "a < k \<and> k < ?i"
    show "lt (xs ! k) (xs ! a)"
    proof (cases "k < i")
      case True
      with k 1(6) show ?thesis by simp
    next
      case False
      then have "i \<le> k" by simp
      with k show ?thesis using scanUp_all[of i k lt xs a j] by simp
    qed
  qed
  have downall: "\<forall>k. ?j < k \<and> k < b \<longrightarrow> \<not> lt (xs ! k) (xs ! a)"
  proof (intro allI impI)
    fix k assume k: "?j < k \<and> k < b"
    show "\<not> lt (xs ! k) (xs ! a)"
    proof (cases "k \<le> j")
      case True
      with k show ?thesis using scanDown_all[of lt xs a ?i j k] by simp
    next
      case False
      with k 1(7) show ?thesis by simp
    qed
  qed
  show ?case
  proof (cases "?i > ?j")
    case True
    then have "partitionLoop lt xs a i j = (xs, ?j)"
      by (subst partitionLoop.simps) (simp add: Let_def)
    with 1(8) have e: "ys = xs" "m = ?j" by auto
    have "\<forall>k. a < k \<and> k \<le> ?j \<longrightarrow> lt (xs ! k) (xs ! a)"
      using upall True by auto
    with e sm downall show ?thesis by simp
  next
    case False
    with sm have lt': "?i < ?j" by simp
    let ?xs = "swap xs ?i ?j"
    have bnd: "?i < length xs" "?j < length xs" "a < ?i" "?j < b"
      using lt' sm 1(2,4,5) by simp_all
    have pe: "partitionLoop lt xs a i j = partitionLoop lt ?xs a (?i + 1) (?j - 1)"
      using False by (subst partitionLoop.simps) (simp add: Let_def)
    have xa: "?xs ! a = xs ! a" using bnd lt' by (simp add: swap_nth)
    have li: "lt (xs ! ?j) (xs ! a)"
      using scanDown_post[where lt=lt and xs=xs and a=a and i="?i" and j=j] lt' bnd by simp
    have ri: "\<not> lt (xs ! ?i) (xs ! a)"
      using scanUp_post[where lt=lt and xs=xs and a=a and i=i and j=j] lt' sm by simp
    have L: "\<forall>k. a < k \<and> k < ?i + 1 \<longrightarrow> lt (?xs ! k) (?xs ! a)"
    proof (intro allI impI)
      fix k assume k: "a < k \<and> k < ?i + 1"
      show "lt (?xs ! k) (?xs ! a)"
      proof (cases "k = ?i")
        case True
        with bnd li xa lt' show ?thesis by (simp add: swap_nth)
      next
        case False
        with k lt' have "k < ?i" "k \<noteq> ?j" by arith+
        with k upall bnd xa show ?thesis by (simp add: swap_nth)
      qed
    qed
    have R: "\<forall>k. ?j - 1 < k \<and> k < b \<longrightarrow> \<not> lt (?xs ! k) (?xs ! a)"
    proof (intro allI impI)
      fix k assume k: "?j - 1 < k \<and> k < b"
      show "\<not> lt (?xs ! k) (?xs ! a)"
      proof (cases "k = ?j")
        case True
        with bnd ri xa lt' show ?thesis by (simp add: swap_nth)
      next
        case False
        with k lt' have "?j < k" "k \<noteq> ?i" by arith+
        with k downall bnd xa show ?thesis by (simp add: swap_nth)
      qed
    qed
    have ih: "rperm ?xs ys (a + 1) b \<and> ?i + 1 \<le> m + 1 \<and> m \<le> ?j - 1
       \<and> (\<forall>k. a < k \<and> k \<le> m \<longrightarrow> lt (ys ! k) (ys ! a))
       \<and> (\<forall>k. m < k \<and> k < b \<longrightarrow> \<not> lt (ys ! k) (ys ! a))"
    proof (rule 1(1)[OF refl refl False])
      show "a < ?i + 1" using bnd by simp
      show "?i + 1 \<le> ?j - 1 + 1" using lt' by simp
      show "?j - 1 < b" using bnd by simp
      show "b \<le> length ?xs" using 1(5) by simp
      show "\<forall>k. a < k \<and> k < ?i + 1 \<longrightarrow> lt (?xs ! k) (?xs ! a)" by (rule L)
      show "\<forall>k. ?j - 1 < k \<and> k < b \<longrightarrow> \<not> lt (?xs ! k) (?xs ! a)" by (rule R)
      show "partitionLoop lt ?xs a (?i + 1) (?j - 1) = (ys, m)" using pe 1(8) by simp
    qed
    have "rperm xs ?xs (a + 1) b"
      using bnd lt' 1(5) by (intro rperm_swap) simp_all
    then have "rperm xs ys (a + 1) b" using ih rperm_trans by blast
    moreover have "i \<le> m + 1" "m \<le> j" using ih sm(1,4) lt' by arith+
    ultimately show ?thesis using ih by simp
  qed
qed

lemma partition_as_loop:
  "partition lt xs a b pivot
     = (let (ys, m) = partitionLoop lt (swap xs a pivot) a (a + 1) (b - 1)
        in (swap ys m a, m,
            scanUp lt (swap xs a pivot) a (a + 1) (b - 1)
              > scanDown lt (swap xs a pivot) a (scanUp lt (swap xs a pivot) a (a + 1) (b - 1)) (b - 1)))"
  by (subst partitionLoop.simps) (simp add: partition_def Let_def case_prod_beta)

text \<open>\<^verbatim>\<open>partition_func\<close>: the elements before the new place of the pivot are less than it,
  the elements after it are not.\<close>

lemma partition_spec:
  assumes "a < b" "b \<le> length xs" "a \<le> pivot" "pivot < b"
    and "partition lt xs a b pivot = (ys, mid, ap)"
  shows "rperm xs ys a b \<and> a \<le> mid \<and> mid < b
       \<and> (\<forall>k. a \<le> k \<and> k < mid \<longrightarrow> lt (ys ! k) (ys ! mid))
       \<and> (\<forall>k. mid < k \<and> k < b \<longrightarrow> \<not> lt (ys ! k) (ys ! mid))"
proof -
  let ?xs = "swap xs a pivot"
  obtain zs m where pl: "partitionLoop lt ?xs a (a + 1) (b - 1) = (zs, m)"
    by (cases "partitionLoop lt ?xs a (a + 1) (b - 1)") auto
  have e: "ys = swap zs m a" "mid = m"
    using assms(5) pl by (auto simp: partition_as_loop)
  have sp: "rperm ?xs zs (a + 1) b \<and> a + 1 \<le> m + 1 \<and> m \<le> b - 1
       \<and> (\<forall>k. a < k \<and> k \<le> m \<longrightarrow> lt (zs ! k) (zs ! a))
       \<and> (\<forall>k. m < k \<and> k < b \<longrightarrow> \<not> lt (zs ! k) (zs ! a))"
    using assms(1,2) by (intro partitionLoop_spec[OF _ _ _ _ _ _ pl]) auto
  have lz: "length zs = length xs" using sp rperm_length by fastforce
  have bm: "a \<le> m" "m < b" "m < length zs" "a < length zs"
    using sp assms(1,2) lz by auto
  have r1: "rperm xs ?xs a b" using assms by (intro rperm_swap) simp_all
  have r2: "rperm ?xs zs a b" using sp rperm_mono by fastforce
  have r3: "rperm zs ys a b" unfolding e using bm assms(1,2) lz by (intro rperm_swap) simp_all
  have ym: "ys ! m = zs ! a" unfolding e using bm by (simp add: swap_nth)
  have L: "lt (ys ! k) (ys ! mid)" if "a \<le> k" "k < mid" for k
  proof (cases "k = a")
    case True
    with that e have "a < m" by simp
    then have "lt (zs ! m) (zs ! a)" using sp by simp
    with True ym e bm show ?thesis by (simp add: swap_nth)
  next
    case False
    with that e have "a < k" "k \<le> m" "k \<noteq> m" by simp_all
    then have "lt (zs ! k) (zs ! a)" using sp by simp
    with \<open>k \<noteq> m\<close> False ym e bm show ?thesis by (simp add: swap_nth)
  qed
  have R: "\<not> lt (ys ! k) (ys ! mid)" if "mid < k" "k < b" for k
  proof -
    from that e have "m < k" "k \<noteq> a" using bm by simp_all
    then have "\<not> lt (zs ! k) (zs ! a)" using sp that by simp
    with \<open>m < k\<close> \<open>k \<noteq> a\<close> ym e bm show ?thesis by (simp add: swap_nth)
  qed
  show ?thesis
    using rperm_trans[OF rperm_trans[OF r1 r2] r3] bm e L R by simp
qed

section \<open>Partitioning off the elements equal to the pivot\<close>

lemma scanUpEq_le: "i \<le> j + 1 \<Longrightarrow> scanUpEq lt xs a i j \<le> j + 1"
proof (induction lt xs a i j rule: scanUpEq.induct)
  case (1 lt xs a i j)
  show ?case
  proof (cases "i \<le> j \<and> \<not> lt (xs ! a) (xs ! i)")
    case True
    with 1(1) have "scanUpEq lt xs a (i + 1) j \<le> j + 1" by simp
    with True show ?thesis by (subst scanUpEq.simps) simp
  next
    case False
    with 1(2) show ?thesis by (subst scanUpEq.simps) auto
  qed
qed

lemma scanDownEq_ge: "i \<le> j + 1 \<Longrightarrow> i \<le> scanDownEq lt xs a i j + 1"
  by (induction lt xs a i j rule: scanDownEq.induct) (subst scanDownEq.simps, auto)

lemma scanUpEq_post:
  "scanUpEq lt xs a i j > j \<or> lt (xs ! a) (xs ! scanUpEq lt xs a i j)"
  by (induction lt xs a i j rule: scanUpEq.induct) (subst (1 2) scanUpEq.simps, auto)

lemma scanDownEq_post:
  "i > scanDownEq lt xs a i j \<or> scanDownEq lt xs a i j = 0
     \<or> \<not> lt (xs ! a) (xs ! scanDownEq lt xs a i j)"
  by (induction lt xs a i j rule: scanDownEq.induct) (subst (1 2 3) scanDownEq.simps, auto)

lemma scanUpEq_all:
  "i \<le> k \<Longrightarrow> k < scanUpEq lt xs a i j \<Longrightarrow> \<not> lt (xs ! a) (xs ! k)"
proof (induction lt xs a i j rule: scanUpEq.induct)
  case (1 lt xs a i j)
  show ?case
  proof (cases "i \<le> j \<and> \<not> lt (xs ! a) (xs ! i)")
    case True
    then have e: "scanUpEq lt xs a i j = scanUpEq lt xs a (i + 1) j"
      by (subst scanUpEq.simps) simp
    show ?thesis
    proof (cases "k = i")
      case True
      with \<open>i \<le> j \<and> \<not> lt (xs ! a) (xs ! i)\<close> show ?thesis by simp
    next
      case False
      with 1(2) have "i + 1 \<le> k" by simp
      with 1(1)[OF True this] 1(3) e show ?thesis by simp
    qed
  next
    case False
    then have "scanUpEq lt xs a i j = i" by (subst scanUpEq.simps) auto
    with 1(2,3) show ?thesis by simp
  qed
qed

lemma scanDownEq_all:
  "scanDownEq lt xs a i j < k \<Longrightarrow> k \<le> j \<Longrightarrow> lt (xs ! a) (xs ! k)"
proof (induction lt xs a i j rule: scanDownEq.induct)
  case (1 lt xs a i j)
  show ?case
  proof (cases "i \<le> j \<and> 0 < j \<and> lt (xs ! a) (xs ! j)")
    case True
    then have e: "scanDownEq lt xs a i j = scanDownEq lt xs a i (j - 1)"
      by (subst scanDownEq.simps) simp
    show ?thesis
    proof (cases "k = j")
      case True
      with \<open>i \<le> j \<and> 0 < j \<and> lt (xs ! a) (xs ! j)\<close> show ?thesis by simp
    next
      case False
      with 1(3) have "k \<le> j - 1" by simp
      with 1(1)[OF True _ this] 1(2) e show ?thesis by simp
    qed
  next
    case False
    then have "scanDownEq lt xs a i j = j" by (subst scanDownEq.simps) auto
    with 1(2,3) show ?thesis by simp
  qed
qed

lemma scanEq_meet:
  fixes lt :: "'a \<Rightarrow> 'a \<Rightarrow> bool" and xs :: "'a list" and a i j :: nat
  assumes "0 < i" "i \<le> j + 1"
  shows "i \<le> scanUpEq lt xs a i j" "scanUpEq lt xs a i j \<le> j + 1"
    "scanUpEq lt xs a i j \<le> scanDownEq lt xs a (scanUpEq lt xs a i j) j + 1"
    "scanDownEq lt xs a (scanUpEq lt xs a i j) j \<le> j"
    "scanUpEq lt xs a i j \<noteq> scanDownEq lt xs a (scanUpEq lt xs a i j) j"
proof -
  let ?i = "scanUpEq lt xs a i j"
  let ?j = "scanDownEq lt xs a ?i j"
  show b1: "i \<le> ?i" by (rule scanUpEq_ge)
  show b2: "?i \<le> j + 1" using assms(2) by (rule scanUpEq_le)
  show b3: "?i \<le> ?j + 1" using b2 by (rule scanDownEq_ge)
  show b4: "?j \<le> j" by (rule scanDownEq_le)
  show "?i \<noteq> ?j"
  proof
    assume e: "?i = ?j"
    with b4 have "lt (xs ! a) (xs ! ?i)"
      using scanUpEq_post[where i=i and lt=lt and xs=xs and a=a and j=j] by simp
    moreover from e b1 assms(1) have "\<not> lt (xs ! a) (xs ! ?j)"
      using scanDownEq_post[where i="?i" and lt=lt and xs=xs and a=a and j=j] by simp
    ultimately show False using e by simp
  qed
qed

lemma partitionEqualLoop_spec:
  assumes "a < i" "i \<le> j + 1" "j < b" "b \<le> length xs"
    and "\<forall>k. a < k \<and> k < i \<longrightarrow> \<not> lt (xs ! a) (xs ! k)"
    and "\<forall>k. j < k \<and> k < b \<longrightarrow> lt (xs ! a) (xs ! k)"
    and "partitionEqualLoop lt xs a i j = (ys, m)"
  shows "rperm xs ys (a + 1) b \<and> i \<le> m \<and> m \<le> j + 1
       \<and> (\<forall>k. a < k \<and> k < m \<longrightarrow> \<not> lt (ys ! a) (ys ! k))
       \<and> (\<forall>k. m \<le> k \<and> k < b \<longrightarrow> lt (ys ! a) (ys ! k))"
  using assms
proof (induction lt xs a i j arbitrary: ys m rule: partitionEqualLoop.induct)
  case (1 lt xs a i j)
  let ?i = "scanUpEq lt xs a i j"
  let ?j = "scanDownEq lt xs a ?i j"
  have pos: "0 < i" using 1(2) by simp
  note sm = scanEq_meet[OF pos 1(3), where lt=lt and xs=xs and a=a]
  have upall: "\<forall>k. a < k \<and> k < ?i \<longrightarrow> \<not> lt (xs ! a) (xs ! k)"
  proof (intro allI impI)
    fix k assume k: "a < k \<and> k < ?i"
    show "\<not> lt (xs ! a) (xs ! k)"
    proof (cases "k < i")
      case True
      with k 1(6) show ?thesis by simp
    next
      case False
      then have "i \<le> k" by simp
      with k show ?thesis using scanUpEq_all[of i k lt xs a j] by simp
    qed
  qed
  have downall: "\<forall>k. ?j < k \<and> k < b \<longrightarrow> lt (xs ! a) (xs ! k)"
  proof (intro allI impI)
    fix k assume k: "?j < k \<and> k < b"
    show "lt (xs ! a) (xs ! k)"
    proof (cases "k \<le> j")
      case True
      with k show ?thesis using scanDownEq_all[of lt xs a ?i j k] by simp
    next
      case False
      with k 1(7) show ?thesis by simp
    qed
  qed
  show ?case
  proof (cases "?i > ?j")
    case True
    then have "partitionEqualLoop lt xs a i j = (xs, ?i)"
      by (subst partitionEqualLoop.simps) (simp add: Let_def)
    with 1(8) have e: "ys = xs" "m = ?i" by auto
    have "\<forall>k. ?i \<le> k \<and> k < b \<longrightarrow> lt (xs ! a) (xs ! k)"
      using downall True by auto
    with e sm upall show ?thesis by simp
  next
    case False
    with sm have lt': "?i < ?j" by simp
    let ?xs = "swap xs ?i ?j"
    have bnd: "?i < length xs" "?j < length xs" "a < ?i" "?j < b"
      using lt' sm 1(2,4,5) by simp_all
    have pe: "partitionEqualLoop lt xs a i j = partitionEqualLoop lt ?xs a (?i + 1) (?j - 1)"
      using False by (subst partitionEqualLoop.simps) (simp add: Let_def)
    have xa: "?xs ! a = xs ! a" using bnd lt' by (simp add: swap_nth)
    have li: "\<not> lt (xs ! a) (xs ! ?j)"
      using scanDownEq_post[where lt=lt and xs=xs and a=a and i="?i" and j=j] lt' bnd by simp
    have ri: "lt (xs ! a) (xs ! ?i)"
      using scanUpEq_post[where lt=lt and xs=xs and a=a and i=i and j=j] lt' sm by simp
    have L: "\<forall>k. a < k \<and> k < ?i + 1 \<longrightarrow> \<not> lt (?xs ! a) (?xs ! k)"
    proof (intro allI impI)
      fix k assume k: "a < k \<and> k < ?i + 1"
      show "\<not> lt (?xs ! a) (?xs ! k)"
      proof (cases "k = ?i")
        case True
        with bnd li xa lt' show ?thesis by (simp add: swap_nth)
      next
        case False
        with k lt' have "k < ?i" "k \<noteq> ?j" by arith+
        with k upall bnd xa show ?thesis by (simp add: swap_nth)
      qed
    qed
    have R: "\<forall>k. ?j - 1 < k \<and> k < b \<longrightarrow> lt (?xs ! a) (?xs ! k)"
    proof (intro allI impI)
      fix k assume k: "?j - 1 < k \<and> k < b"
      show "lt (?xs ! a) (?xs ! k)"
      proof (cases "k = ?j")
        case True
        with bnd ri xa lt' show ?thesis by (simp add: swap_nth)
      next
        case False
        with k lt' have "?j < k" "k \<noteq> ?i" by arith+
        with k downall bnd xa show ?thesis by (simp add: swap_nth)
      qed
    qed
    have ih: "rperm ?xs ys (a + 1) b \<and> ?i + 1 \<le> m \<and> m \<le> ?j - 1 + 1
       \<and> (\<forall>k. a < k \<and> k < m \<longrightarrow> \<not> lt (ys ! a) (ys ! k))
       \<and> (\<forall>k. m \<le> k \<and> k < b \<longrightarrow> lt (ys ! a) (ys ! k))"
    proof (rule 1(1)[OF refl refl False])
      show "a < ?i + 1" using bnd by simp
      show "?i + 1 \<le> ?j - 1 + 1" using lt' by simp
      show "?j - 1 < b" using bnd by simp
      show "b \<le> length ?xs" using 1(5) by simp
      show "\<forall>k. a < k \<and> k < ?i + 1 \<longrightarrow> \<not> lt (?xs ! a) (?xs ! k)" by (rule L)
      show "\<forall>k. ?j - 1 < k \<and> k < b \<longrightarrow> lt (?xs ! a) (?xs ! k)" by (rule R)
      show "partitionEqualLoop lt ?xs a (?i + 1) (?j - 1) = (ys, m)" using pe 1(8) by simp
    qed
    have "rperm xs ?xs (a + 1) b"
      using bnd lt' 1(5) by (intro rperm_swap) simp_all
    then have "rperm xs ys (a + 1) b" using ih rperm_trans by blast
    moreover have "i \<le> m" "m \<le> j + 1" using ih sm(1,4) lt' by arith+
    ultimately show ?thesis using ih by simp
  qed
qed

text \<open>\<^verbatim>\<open>partitionEqual_func\<close>: the pivot goes to the front of the range; after it come the
  elements it is not less than, and from the returned index on the elements it is less than.\<close>

lemma partitionEqual_spec:
  assumes "a < b" "b \<le> length xs" "a \<le> pivot" "pivot < b"
    and "partitionEqual lt xs a b pivot = (ys, mid)"
  shows "rperm xs ys a b \<and> a < mid \<and> mid \<le> b \<and> ys ! a = xs ! pivot
       \<and> (\<forall>k. a < k \<and> k < mid \<longrightarrow> \<not> lt (ys ! a) (ys ! k))
       \<and> (\<forall>k. mid \<le> k \<and> k < b \<longrightarrow> lt (ys ! a) (ys ! k))"
proof -
  let ?xs = "swap xs a pivot"
  have pl: "partitionEqualLoop lt ?xs a (a + 1) (b - 1) = (ys, mid)"
    using assms(5) by (simp add: partitionEqual_def)
  have sp: "rperm ?xs ys (a + 1) b \<and> a + 1 \<le> mid \<and> mid \<le> b - 1 + 1
       \<and> (\<forall>k. a < k \<and> k < mid \<longrightarrow> \<not> lt (ys ! a) (ys ! k))
       \<and> (\<forall>k. mid \<le> k \<and> k < b \<longrightarrow> lt (ys ! a) (ys ! k))"
    using assms(1,2) by (intro partitionEqualLoop_spec[OF _ _ _ _ _ _ pl]) auto
  have r1: "rperm xs ?xs a b" using assms by (intro rperm_swap) simp_all
  have r2: "rperm ?xs ys a b" using sp rperm_mono by fastforce
  have "ys ! a = ?xs ! a" using sp rperm_outside[of ?xs ys "a + 1" b a] by simp
  also have "\<dots> = xs ! pivot" using assms by (simp add: swap_nth)
  finally have ya: "ys ! a = xs ! pivot" .
  show ?thesis
    using rperm_trans[OF r1 r2] sp ya assms(1) by simp
qed

section \<open>The heap sort\<close>

text \<open>Node \<open>i\<close> of the heap stored from \<open>first\<close> on, with \<open>hi\<close> nodes, is not below its
  children.\<close>

definition heapAt :: "('a \<Rightarrow> 'k::linorder) \<Rightarrow> 'a list \<Rightarrow> nat \<Rightarrow> nat \<Rightarrow> nat \<Rightarrow> bool" where
  "heapAt f xs first hi i =
     ((2 * i + 1 < hi \<longrightarrow> f (xs ! (first + (2 * i + 1))) \<le> f (xs ! (first + i)))
      \<and> (2 * i + 2 < hi \<longrightarrow> f (xs ! (first + (2 * i + 2))) \<le> f (xs ! (first + i))))"

lemma siftDown_stop1:
  "hi \<le> 2 * root + 1 \<Longrightarrow> siftDown lt xs root hi first = xs"
  by (subst siftDown.simps) (simp add: Let_def)

lemma siftDown_unfold:
  assumes "2 * root + 1 < hi"
  shows "siftDown lt xs root hi first =
     (let c = (if 2 * root + 2 < hi \<and> lt (xs ! (first + (2 * root + 1))) (xs ! (first + (2 * root + 2)))
               then 2 * root + 2 else 2 * root + 1)
      in if \<not> lt (xs ! (first + root)) (xs ! (first + c)) then xs
         else siftDown lt (swap xs (first + root) (first + c)) c hi first)"
  using assms by (subst siftDown.simps) (simp add: Let_def add.assoc)

lemma siftDown_spec:
  fixes f :: "'a \<Rightarrow> 'k::linorder"
  assumes "first + hi \<le> length xs" "lo \<le> root"
    and "\<forall>i. lo \<le> i \<and> i < hi \<and> i \<noteq> root \<longrightarrow> heapAt f xs first hi i"
    and "\<forall>c. 0 < root \<and> lo \<le> (root - 1) div 2 \<and> (c = 2 * root + 1 \<or> c = 2 * root + 2) \<and> c < hi
           \<longrightarrow> f (xs ! (first + c)) \<le> f (xs ! (first + (root - 1) div 2))"
  shows "rperm xs (siftDown (keyLess f) xs root hi first) (first + root) (first + hi)
       \<and> (\<forall>i. lo \<le> i \<and> i < hi \<longrightarrow> heapAt f (siftDown (keyLess f) xs root hi first) first hi i)"
  using assms
proof (induction "hi - root" arbitrary: xs root rule: less_induct)
  case less
  note H = less.prems(3) and Pa = less.prems(4)
  let ?l = "2 * root + 1"
  show ?case
  proof (cases "hi \<le> ?l")
    case True
    have "heapAt f xs first hi i" if "lo \<le> i" "i < hi" for i
    proof (cases "i = root")
      case True
      with \<open>hi \<le> ?l\<close> show ?thesis by (simp add: heapAt_def)
    next
      case False
      with that H show ?thesis by simp
    qed
    with True show ?thesis by (simp add: siftDown_stop1)
  next
    case False
    then have lhi: "?l < hi" by simp
    define c where "c = (if 2 * root + 2 < hi
        \<and> f (xs ! (first + (2 * root + 1))) < f (xs ! (first + (2 * root + 2)))
        then 2 * root + 2 else 2 * root + 1)"
    have cb: "c < hi" "root < c" "c = 2 * root + 1 \<or> c = 2 * root + 2"
      using lhi by (auto simp: c_def)
    have cmax: "f (xs ! (first + d)) \<le> f (xs ! (first + c))"
      if "d = 2 * root + 1 \<or> d = 2 * root + 2" "d < hi" for d
      using that by (auto simp: c_def)
    have unf: "siftDown (keyLess f) xs root hi first =
       (if \<not> f (xs ! (first + root)) < f (xs ! (first + c)) then xs
        else siftDown (keyLess f) (swap xs (first + root) (first + c)) c hi first)"
      using siftDown_unfold[OF lhi, of "keyLess f" xs first] by (simp add: c_def Let_def)
    show ?thesis
    proof (cases "f (xs ! (first + root)) < f (xs ! (first + c))")
      case False
      then have rc: "f (xs ! (first + c)) \<le> f (xs ! (first + root))" by simp
      have "heapAt f xs first hi i" if "lo \<le> i" "i < hi" for i
      proof (cases "i = root")
        case True
        show ?thesis unfolding heapAt_def True
          using cmax[of "2 * root + 1"] cmax[of "2 * root + 2"] rc by auto
      next
        case False
        with that H show ?thesis by simp
      qed
      with False unf show ?thesis by simp
    next
      case True
      let ?xs = "swap xs (first + root) (first + c)"
      have bl: "first + root < length xs" "first + c < length xs"
        using cb less.prems(1) by simp_all
      have nth: "?xs ! (first + n)
          = (if n = c then xs ! (first + root) else if n = root then xs ! (first + c)
             else xs ! (first + n))" for n
        using bl by (simp add: swap_nth)
      have H': "\<forall>i. lo \<le> i \<and> i < hi \<and> i \<noteq> c \<longrightarrow> heapAt f ?xs first hi i"
      proof (intro allI impI)
        fix i assume i: "lo \<le> i \<and> i < hi \<and> i \<noteq> c"
        show "heapAt f ?xs first hi i"
        proof (cases "i = root")
          case ir: True
          have A: "f (?xs ! (first + d)) \<le> f (?xs ! (first + root))"
            if "d = 2 * root + 1 \<or> d = 2 * root + 2" "d < hi" for d
          proof (cases "d = c")
            case True
            with \<open>f (xs ! (first + root)) < f (xs ! (first + c))\<close> cb show ?thesis
              by (simp add: nth)
          next
            case False
            with that cb cmax[OF that] show ?thesis by (auto simp: nth)
          qed
          show ?thesis unfolding heapAt_def ir
            using A[of "2 * root + 1"] A[of "2 * root + 2"] by simp
        next
          case nr: False
          have hi': "heapAt f xs first hi i" using H i nr by simp
          have inc: "?xs ! (first + i) = xs ! (first + i)" using i nr by (simp add: nth)
          have B: "f (?xs ! (first + d)) \<le> f (xs ! (first + i))"
            if d: "d = 2 * i + 1 \<or> d = 2 * i + 2" "d < hi" for d
          proof -
            have dc: "d \<noteq> c" using d cb nr by arith
            show ?thesis
            proof (cases "d = root")
              case True
              then have p: "0 < root" "(root - 1) div 2 = i" using d by auto
              have "f (xs ! (first + c)) \<le> f (xs ! (first + (root - 1) div 2))"
                using Pa p i cb by simp
              with True dc p show ?thesis by (simp add: nth)
            next
              case False
              with dc have "?xs ! (first + d) = xs ! (first + d)" by (simp add: nth)
              with hi' d show ?thesis by (auto simp: heapAt_def)
            qed
          qed
          show ?thesis unfolding heapAt_def inc
            using B[of "2 * i + 1"] B[of "2 * i + 2"] by simp
        qed
      qed
      have Pa': "\<forall>e. 0 < c \<and> lo \<le> (c - 1) div 2 \<and> (e = 2 * c + 1 \<or> e = 2 * c + 2) \<and> e < hi
           \<longrightarrow> f (?xs ! (first + e)) \<le> f (?xs ! (first + (c - 1) div 2))"
      proof (intro allI impI)
        fix e assume e: "0 < c \<and> lo \<le> (c - 1) div 2 \<and> (e = 2 * c + 1 \<or> e = 2 * c + 2) \<and> e < hi"
        have pr: "(c - 1) div 2 = root" using cb by auto
        have "heapAt f xs first hi c" using H cb less.prems(2) by simp
        then have "f (xs ! (first + e)) \<le> f (xs ! (first + c))"
          using e by (auto simp: heapAt_def)
        moreover have "e \<noteq> c" "e \<noteq> root" using e cb by auto
        ultimately show "f (?xs ! (first + e)) \<le> f (?xs ! (first + (c - 1) div 2))"
          unfolding pr using cb by (simp add: nth)
      qed
      have ih: "rperm ?xs (siftDown (keyLess f) ?xs c hi first) (first + c) (first + hi)
         \<and> (\<forall>i. lo \<le> i \<and> i < hi \<longrightarrow> heapAt f (siftDown (keyLess f) ?xs c hi first) first hi i)"
      proof (rule less.hyps)
        show "hi - c < hi - root" using cb by simp
        show "first + hi \<le> length ?xs" using less.prems(1) by simp
        show "lo \<le> c" using cb less.prems(2) by simp
        show "\<forall>i. lo \<le> i \<and> i < hi \<and> i \<noteq> c \<longrightarrow> heapAt f ?xs first hi i" by (rule H')
        show "\<forall>e. 0 < c \<and> lo \<le> (c - 1) div 2 \<and> (e = 2 * c + 1 \<or> e = 2 * c + 2) \<and> e < hi
           \<longrightarrow> f (?xs ! (first + e)) \<le> f (?xs ! (first + (c - 1) div 2))" by (rule Pa')
      qed
      have "rperm xs ?xs (first + root) (first + hi)"
        using cb less.prems(1) by (intro rperm_swap) simp_all
      moreover have "rperm ?xs (siftDown (keyLess f) ?xs c hi first) (first + root) (first + hi)"
        using ih cb rperm_mono[of ?xs _ "first + c" "first + hi" "first + root" "first + hi"]
        by simp
      ultimately have "rperm xs (siftDown (keyLess f) ?xs c hi first) (first + root) (first + hi)"
        by (rule rperm_trans)
      with ih True unf show ?thesis by simp
    qed
  qed
qed

lemma heapBuild_spec:
  fixes f :: "'a \<Rightarrow> 'k::linorder"
  assumes "first + hi \<le> length xs"
    and "\<forall>i. k \<le> i \<and> i < hi \<longrightarrow> heapAt f xs first hi i"
  shows "rperm xs (heapBuild (keyLess f) xs hi first k) first (first + hi)
       \<and> (\<forall>i. i < hi \<longrightarrow> heapAt f (heapBuild (keyLess f) xs hi first k) first hi i)"
  using assms
proof (induction k arbitrary: xs)
  case 0
  then show ?case by simp
next
  case (Suc k)
  let ?ys = "siftDown (keyLess f) xs k hi first"
  have s: "rperm xs ?ys (first + k) (first + hi)
       \<and> (\<forall>i. k \<le> i \<and> i < hi \<longrightarrow> heapAt f ?ys first hi i)"
  proof (rule siftDown_spec)
    show "first + hi \<le> length xs" by (rule Suc.prems(1))
    show "k \<le> k" by simp
    show "\<forall>i. k \<le> i \<and> i < hi \<and> i \<noteq> k \<longrightarrow> heapAt f xs first hi i"
      using Suc.prems(2) by auto
    show "\<forall>c. 0 < k \<and> k \<le> (k - 1) div 2 \<and> (c = 2 * k + 1 \<or> c = 2 * k + 2) \<and> c < hi
           \<longrightarrow> f (xs ! (first + c)) \<le> f (xs ! (first + (k - 1) div 2))"
      by auto
  qed
  then have r1: "rperm xs ?ys first (first + hi)"
    using rperm_mono[of xs ?ys "first + k" "first + hi" first "first + hi"] by simp
  have l: "length ?ys = length xs" using r1 by (rule rperm_length)
  have ih: "rperm ?ys (heapBuild (keyLess f) ?ys hi first k) first (first + hi)
       \<and> (\<forall>i. i < hi \<longrightarrow> heapAt f (heapBuild (keyLess f) ?ys hi first k) first hi i)"
    using Suc.IH[of ?ys] s l Suc.prems(1) by simp
  then have "rperm xs (heapBuild (keyLess f) ?ys hi first k) first (first + hi)"
    using r1 rperm_trans by blast
  with ih show ?case by simp
qed

lemma heapBuild_whole:
  fixes f :: "'a \<Rightarrow> 'k::linorder"
  assumes "first + hi \<le> length xs"
  shows "rperm xs (heapBuild (keyLess f) xs hi first ((hi - 1) div 2 + 1)) first (first + hi)
       \<and> (\<forall>i. i < hi \<longrightarrow>
            heapAt f (heapBuild (keyLess f) xs hi first ((hi - 1) div 2 + 1)) first hi i)"
proof (rule heapBuild_spec[OF assms])
  show "\<forall>i. (hi - 1) div 2 + 1 \<le> i \<and> i < hi \<longrightarrow> heapAt f xs first hi i"
  proof (intro allI impI)
    fix i assume "(hi - 1) div 2 + 1 \<le> i \<and> i < hi"
    then have "hi \<le> 2 * i + 1" by arith
    then show "heapAt f xs first hi i" by (simp add: heapAt_def)
  qed
qed

lemma heap_max:
  fixes f :: "'a \<Rightarrow> 'k::linorder"
  assumes "\<forall>i. i < hi \<longrightarrow> heapAt f xs first hi i" "j < hi"
  shows "f (xs ! (first + j)) \<le> f (xs ! first)"
  using assms(2)
proof (induction j rule: less_induct)
  case (less j)
  show ?case
  proof (cases "j = 0")
    case True
    then show ?thesis by simp
  next
    case False
    define p where "p = (j - 1) div 2"
    have p: "p < j" "j = 2 * p + 1 \<or> j = 2 * p + 2" using False by (auto simp: p_def)
    have "heapAt f xs first hi p" using assms(1) p less.prems by simp
    then have "f (xs ! (first + j)) \<le> f (xs ! (first + p))"
      using p less.prems by (auto simp: heapAt_def)
    moreover have "f (xs ! (first + p)) \<le> f (xs ! first)"
      using less.IH[of p] p less.prems by simp
    ultimately show ?thesis by simp
  qed
qed

lemma heapPop_spec:
  fixes f :: "'a \<Rightarrow> 'k::linorder"
  assumes "first + hi \<le> length xs" "k \<le> hi"
    and "\<forall>i. i < k \<longrightarrow> heapAt f xs first k i"
    and "rsorted f xs (first + k) (first + hi)"
    and "\<forall>i j. first \<le> i \<and> i < first + k \<and> first + k \<le> j \<and> j < first + hi
           \<longrightarrow> f (xs ! i) \<le> f (xs ! j)"
  shows "rperm xs (heapPop (keyLess f) xs first k) first (first + hi)
       \<and> rsorted f (heapPop (keyLess f) xs first k) first (first + hi)"
  using assms
proof (induction k arbitrary: xs)
  case 0
  then show ?case by simp
next
  case (Suc k)
  note len = Suc.prems(1) and heap = Suc.prems(3) and srt = Suc.prems(4) and low = Suc.prems(5)
  let ?xs1 = "swap xs first (first + k)"
  let ?xs2 = "siftDown (keyLess f) ?xs1 0 k first"
  have kb: "first < length xs" "first + k < length xs" using len Suc.prems(2) by simp_all
  have nth1: "?xs1 ! n = (if n = first + k then xs ! first else if n = first then xs ! (first + k)
      else xs ! n)" for n
    using kb by (simp add: swap_nth)
  have top: "f (xs ! (first + j)) \<le> f (xs ! first)" if "j < Suc k" for j
    using heap_max[of "Suc k" f xs first j] heap that by simp
  have s: "rperm ?xs1 ?xs2 (first + 0) (first + k)
       \<and> (\<forall>i. 0 \<le> i \<and> i < k \<longrightarrow> heapAt f ?xs2 first k i)"
  proof (rule siftDown_spec)
    show "first + k \<le> length ?xs1" using kb by simp
    show "(0::nat) \<le> 0" by simp
    show "\<forall>i. 0 \<le> i \<and> i < k \<and> i \<noteq> 0 \<longrightarrow> heapAt f ?xs1 first k i"
    proof (intro allI impI)
      fix i assume i: "0 \<le> i \<and> i < k \<and> i \<noteq> 0"
      then have "heapAt f xs first (Suc k) i" using heap by simp
      with i show "heapAt f ?xs1 first k i"
        by (auto simp: heapAt_def nth1)
    qed
    show "\<forall>c. (0::nat) < 0 \<and> 0 \<le> (0 - 1) div 2 \<and> (c = 2 * 0 + 1 \<or> c = 2 * 0 + 2) \<and> c < k
           \<longrightarrow> f (?xs1 ! (first + c)) \<le> f (?xs1 ! (first + (0 - 1) div 2))"
      by simp
  qed
  then have r12: "rperm ?xs1 ?xs2 first (first + k)" by simp
  have l2: "length ?xs2 = length xs" using rperm_length[OF r12] by simp
  have out2: "?xs2 ! n = ?xs1 ! n" if "first + k \<le> n" for n
    using rperm_outside[OF r12, of n] that by simp
  have in2: "P (?xs2 ! n)" if "first \<le> n" "n < first + k"
    and "\<And>m. first \<le> m \<Longrightarrow> m < first + k \<Longrightarrow> P (?xs1 ! m)" for P n
  proof -
    have "rangeAll P ?xs1 first (first + k)" using that(3) by (simp add: rangeAll_def)
    then have "rangeAll P ?xs2 first (first + k)"
      using rperm_rangeAll[OF r12, of P] kb by simp
    with that(1,2) show ?thesis by (simp add: rangeAll_def)
  qed
  have srt2: "rsorted f ?xs2 (first + k) (first + hi)"
    unfolding rsorted_def
  proof (intro allI impI)
    fix i j assume ij: "first + k \<le> i \<and> i \<le> j \<and> j < first + hi"
    show "f (?xs2 ! i) \<le> f (?xs2 ! j)"
    proof (cases "i = first + k")
      case True
      show ?thesis
      proof (cases "j = first + k")
        case True
        with \<open>i = first + k\<close> show ?thesis by simp
      next
        case False
        then have "f (xs ! first) \<le> f (xs ! j)" using low ij by simp
        with True False ij show ?thesis by (simp add: out2 nth1)
      qed
    next
      case False
      then have "f (xs ! i) \<le> f (xs ! j)" using srt ij by (simp add: rsorted_def)
      with False ij show ?thesis by (simp add: out2 nth1)
    qed
  qed
  have low2: "\<forall>i j. first \<le> i \<and> i < first + k \<and> first + k \<le> j \<and> j < first + hi
           \<longrightarrow> f (?xs2 ! i) \<le> f (?xs2 ! j)"
  proof (intro allI impI)
    fix i j assume ij: "first \<le> i \<and> i < first + k \<and> first + k \<le> j \<and> j < first + hi"
    have "f (?xs2 ! i) \<le> f (?xs1 ! j)"
    proof (rule in2[of i "\<lambda>y. f y \<le> f (?xs1 ! j)"])
      show "first \<le> i" "i < first + k" using ij by simp_all
      fix m assume m: "first \<le> m" "m < first + k"
      show "f (?xs1 ! m) \<le> f (?xs1 ! j)"
      proof (cases "j = first + k")
        case True
        have "f (xs ! (first + (m - first))) \<le> f (xs ! first)"
          using top[of "m - first"] m by simp
        moreover have "f (xs ! (first + k)) \<le> f (xs ! first)" using top[of k] by simp
        ultimately show ?thesis using True m by (simp add: nth1)
      next
        case False
        have "f (xs ! m) \<le> f (xs ! j)" using low m ij False by simp
        moreover have "f (xs ! (first + k)) \<le> f (xs ! j)" using low ij False by simp
        ultimately show ?thesis using False m ij by (simp add: nth1)
      qed
    qed
    with ij show "f (?xs2 ! i) \<le> f (?xs2 ! j)" by (simp add: out2)
  qed
  have ih: "rperm ?xs2 (heapPop (keyLess f) ?xs2 first k) first (first + hi)
       \<and> rsorted f (heapPop (keyLess f) ?xs2 first k) first (first + hi)"
  proof (rule Suc.IH)
    show "first + hi \<le> length ?xs2" using l2 len by simp
    show "k \<le> hi" using Suc.prems(2) by simp
    show "\<forall>i. i < k \<longrightarrow> heapAt f ?xs2 first k i" using s by simp
    show "rsorted f ?xs2 (first + k) (first + hi)" by (rule srt2)
    show "\<forall>i j. first \<le> i \<and> i < first + k \<and> first + k \<le> j \<and> j < first + hi
           \<longrightarrow> f (?xs2 ! i) \<le> f (?xs2 ! j)" by (rule low2)
  qed
  have "rperm xs ?xs1 first (first + hi)"
    using kb len Suc.prems(2) by (intro rperm_swap) simp_all
  moreover have "rperm ?xs1 ?xs2 first (first + hi)"
    using r12 Suc.prems(2) rperm_mono[of ?xs1 ?xs2 first "first + k" first "first + hi"] by simp
  ultimately have "rperm xs (heapPop (keyLess f) ?xs2 first k) first (first + hi)"
    using ih rperm_trans by blast
  with ih show ?case by simp
qed

lemma rsorted_empty: "b \<le> a \<Longrightarrow> rsorted f xs a b"
  by (auto simp: rsorted_def)

lemma heapSort_correct:
  fixes f :: "'a \<Rightarrow> 'k::linorder"
  assumes "a \<le> b" "b \<le> length xs"
  shows "rperm xs (heapSort (keyLess f) xs a b) a b"
    and "rsorted f (heapSort (keyLess f) xs a b) a b"
proof -
  let ?ys = "heapBuild (keyLess f) xs (b - a) a ((b - a - 1) div 2 + 1)"
  have len: "a + (b - a) \<le> length xs" using assms by simp
  have hb: "rperm xs ?ys a (a + (b - a)) \<and> (\<forall>i. i < b - a \<longrightarrow> heapAt f ?ys a (b - a) i)"
    by (rule heapBuild_whole[OF len])
  have l: "length ?ys = length xs" using hb rperm_length by blast
  have hp: "rperm ?ys (heapPop (keyLess f) ?ys a (b - a)) a (a + (b - a))
       \<and> rsorted f (heapPop (keyLess f) ?ys a (b - a)) a (a + (b - a))"
  proof (rule heapPop_spec)
    show "a + (b - a) \<le> length ?ys" using l len by simp
    show "b - a \<le> b - a" by simp
    show "\<forall>i. i < b - a \<longrightarrow> heapAt f ?ys a (b - a) i" using hb by simp
    show "rsorted f ?ys (a + (b - a)) (a + (b - a))" by (rule rsorted_empty) simp
    show "\<forall>i j. a \<le> i \<and> i < a + (b - a) \<and> a + (b - a) \<le> j \<and> j < a + (b - a)
           \<longrightarrow> f (?ys ! i) \<le> f (?ys ! j)" using not_le by blast
  qed
  have e: "heapSort (keyLess f) xs a b = heapPop (keyLess f) ?ys a (b - a)"
    by (simp add: heapSort_def Let_def)
  have ab: "a + (b - a) = b" using assms by simp
  show "rperm xs (heapSort (keyLess f) xs a b) a b"
    using hb hp rperm_trans unfolding e ab by blast
  show "rsorted f (heapSort (keyLess f) xs a b) a b"
    using hp unfolding e ab by simp
qed

section \<open>Preparing a round of the quicksort\<close>

text \<open>The element before the range, when there is one, is not above any element of the
  range: the quicksort keeps this for every range it is called on.\<close>

definition lowB :: "('a \<Rightarrow> 'k::linorder) \<Rightarrow> 'a list \<Rightarrow> nat \<Rightarrow> nat \<Rightarrow> bool" where
  "lowB f xs a b = (0 < a \<longrightarrow> (\<forall>k. a \<le> k \<and> k < b \<longrightarrow> f (xs ! (a - 1)) \<le> f (xs ! k)))"

lemma lowB_rperm:
  assumes "rperm xs ys a b" "a \<le> b" "b \<le> length xs" "lowB f xs a b"
  shows "lowB f ys a b"
proof (cases "0 < a")
  case True
  have "rangeAll (\<lambda>y. f (xs ! (a - 1)) \<le> f y) xs a b"
    using assms(4) True by (simp add: lowB_def rangeAll_def)
  then have "rangeAll (\<lambda>y. f (xs ! (a - 1)) \<le> f y) ys a b"
    by (rule rperm_rangeAll[OF assms(1,2,3)])
  moreover have "ys ! (a - 1) = xs ! (a - 1)"
    using rperm_outside[OF assms(1), of "a - 1"] True by simp
  ultimately show ?thesis by (simp add: lowB_def rangeAll_def)
next
  case False
  then show ?thesis by (simp add: lowB_def)
qed

lemma lowB_mono: "lowB f xs a b \<Longrightarrow> b' \<le> b \<Longrightarrow> lowB f xs a b'"
  by (auto simp: lowB_def)

subsection \<open>Breaking patterns\<close>

lemma bitsLen_bound: "0 < n \<Longrightarrow> 2 ^ bitsLen n \<le> 2 * n"
proof (induction n rule: bitsLen.induct)
  case (1 n)
  show ?case
  proof (cases "n div 2 = 0")
    case True
    then have "bitsLen (n div 2) = 0" by (simp add: bitsLen.simps)
    with "1.prems" show ?thesis by (subst bitsLen.simps) simp
  next
    case False
    then have "2 ^ bitsLen (n div 2) \<le> 2 * (n div 2)" using 1 by simp
    then have "2 * 2 ^ bitsLen (n div 2) \<le> 2 * n" by simp
    with "1.prems" show ?thesis by (subst bitsLen.simps) simp
  qed
qed

lemma breakLoop_rperm:
  assumes "a \<le> idx - 1 + i" "idx - 1 + i + k \<le> b" "0 < len" "a + len \<le> b" "b \<le> length xs"
    "0 < modulus" "modulus \<le> 2 * len"
  shows "rperm xs (breakLoop next xs a len modulus idx random i k) a b"
  using assms
proof (induction k arbitrary: xs random i)
  case 0
  then show ?case by simp
next
  case (Suc k)
  define other0 where "other0 = next random mod modulus"
  define other where "other = (if other0 \<ge> len then other0 - len else other0)"
  have "other0 < modulus" using Suc.prems by (simp add: other0_def)
  then have o: "other < len" using Suc.prems by (auto simp: other_def)
  let ?xs = "swap xs (idx - 1 + i) (a + other)"
  have r: "rperm xs ?xs a b" using Suc.prems o by (intro rperm_swap) simp_all
  have "rperm ?xs (breakLoop next ?xs a len modulus idx (next random) (i + 1) k) a b"
    using Suc.prems by (intro Suc.IH) simp_all
  with r have "rperm xs (breakLoop next ?xs a len modulus idx (next random) (i + 1) k) a b"
    by (rule rperm_trans)
  then show ?case
    unfolding other_def other0_def
    by (cases "len \<le> next random mod modulus") (simp_all add: Let_def)
qed

lemma breakPatterns_rperm:
  assumes "a \<le> b" "b \<le> length xs"
  shows "rperm xs (breakPatterns next xs a b) a b"
proof (cases "b - a \<ge> 8")
  case True
  have "rperm xs (breakLoop next xs a (b - a) (2 ^ bitsLen (b - a))
      (a + ((b - a) div 4) * 2 - 1) (b - a) 0 3) a b"
  proof (rule breakLoop_rperm)
    show "a \<le> a + (b - a) div 4 * 2 - 1 - 1 + 0" using True by arith
    show "a + (b - a) div 4 * 2 - 1 - 1 + 0 + 3 \<le> b" using True assms by arith
    show "0 < b - a" using True by simp
    show "a + (b - a) \<le> b" using assms by simp
    show "b \<le> length xs" by (rule assms(2))
    show "(0::nat) < 2 ^ bitsLen (b - a)" by simp
    show "2 ^ bitsLen (b - a) \<le> 2 * (b - a)" using True by (intro bitsLen_bound) simp
  qed
  with True show ?thesis by (simp add: breakPatterns_def Let_def)
next
  case False
  then show ?thesis by (simp add: breakPatterns_def Let_def)
qed

subsection \<open>Choosing the pivot\<close>

lemma median_in: "median lt xs a b c s = (p, s') \<Longrightarrow> p = a \<or> p = b \<or> p = c"
  by (auto simp: median_def order2_def Let_def split: if_splits)

lemma medianAdjacent_in: "medianAdjacent lt xs a s = (p, s') \<Longrightarrow> p = a - 1 \<or> p = a \<or> p = a + 1"
  using median_in[of lt xs "a - 1" a "a + 1" s p s'] by (auto simp: medianAdjacent_def)

lemma choosePivot_bounds:
  assumes "a < b" "choosePivot lt xs a b = (p, h)"
  shows "a \<le> p \<and> p < b"
proof -
  define l where "l = b - a"
  have l: "0 < l" "b = a + l" using assms(1) by (simp_all add: l_def)
  show ?thesis
  proof (cases "l \<ge> 8")
    case False
    then have "p = a + l div 4 * 2"
      using assms(2) by (auto simp: choosePivot_def Let_def l_def split: if_splits)
    with l show ?thesis by arith
  next
    case l8: True
    show ?thesis
    proof (cases "l \<ge> 50")
      case False
      obtain q s where m: "median lt xs (a + l div 4 * 1) (a + l div 4 * 2) (a + l div 4 * 3) 0 = (q, s)"
        by fastforce
      then have "p = q"
        using assms(2) l8 False by (auto simp: choosePivot_def Let_def l_def split: if_splits)
      with median_in[OF m] l l8 show ?thesis by arith
    next
      case True
      obtain i1 s1 where m1: "medianAdjacent lt xs (a + l div 4 * 1) 0 = (i1, s1)" by fastforce
      obtain j1 s2 where m2: "medianAdjacent lt xs (a + l div 4 * 2) s1 = (j1, s2)" by fastforce
      obtain k1 s3 where m3: "medianAdjacent lt xs (a + l div 4 * 3) s2 = (k1, s3)" by fastforce
      obtain q s where m: "median lt xs i1 j1 k1 s3 = (q, s)" by fastforce
      have "p = q"
        using assms(2) l8 True m1 m2 m3 m
        by (auto simp: choosePivot_def Let_def l_def split: if_splits)
      moreover have "a \<le> i1 \<and> i1 < b" using medianAdjacent_in[OF m1] l True by arith
      moreover have "a \<le> j1 \<and> j1 < b" using medianAdjacent_in[OF m2] l True by arith
      moreover have "a \<le> k1 \<and> k1 < b" using medianAdjacent_in[OF m3] l True by arith
      ultimately show ?thesis using median_in[OF m] by auto
    qed
  qed
qed

subsection \<open>Reversing the range\<close>

lemma reverseRangeLoop_rperm:
  "a \<le> i \<Longrightarrow> j < b \<Longrightarrow> b \<le> length xs \<Longrightarrow> rperm xs (reverseRangeLoop xs i j) a b"
proof (induction xs i j rule: reverseRangeLoop.induct)
  case (1 xs i j)
  show ?case
  proof (cases "i < j")
    case True
    have "rperm xs (swap xs i j) a b" using "1.prems" True by (intro rperm_swap) simp_all
    moreover have "rperm (swap xs i j) (reverseRangeLoop (swap xs i j) (i + 1) (j - 1)) a b"
      using "1.IH"[OF True] "1.prems" True by simp
    moreover have "reverseRangeLoop xs i j = reverseRangeLoop (swap xs i j) (i + 1) (j - 1)"
      using True by (subst reverseRangeLoop.simps) simp
    ultimately show ?thesis using rperm_trans by metis
  next
    case False
    then have "reverseRangeLoop xs i j = xs" by (subst reverseRangeLoop.simps) simp
    then show ?thesis by simp
  qed
qed

lemma reverseRange_rperm:
  "a < b \<Longrightarrow> b \<le> length xs \<Longrightarrow> rperm xs (reverseRange xs a b) a b"
  unfolding reverseRange_def by (rule reverseRangeLoop_rperm) simp_all

subsection \<open>The partial insertion sort\<close>

lemma rsorted_seg:
  assumes "a \<le> b" "b \<le> length xs"
  shows "rsorted f xs a b = sorted (map f (seg xs a b))"
proof
  assume r: "rsorted f xs a b"
  show "sorted (map f (seg xs a b))"
    unfolding sorted_iff_nth_mono
  proof (intro allI impI)
    fix i j assume ij: "i \<le> j" "j < length (map f (seg xs a b))"
    then have "j < b - a" using assms by simp
    with ij assms r show "map f (seg xs a b) ! i \<le> map f (seg xs a b) ! j"
      by (simp add: rsorted_def)
  qed
next
  assume s: "sorted (map f (seg xs a b))"
  show "rsorted f xs a b"
    unfolding rsorted_def
  proof (intro allI impI)
    fix i j assume "a \<le> i \<and> i \<le> j \<and> j < b"
    then have ij: "a \<le> i" "i \<le> j" "j < b" by simp_all
    have "i - a \<le> j - a" "j - a < length (map f (seg xs a b))"
      using ij assms by simp_all
    with s have "map f (seg xs a b) ! (i - a) \<le> map f (seg xs a b) ! (j - a)"
      by (intro sorted_nth_mono)
    then show "f (xs ! i) \<le> f (xs ! j)" using ij assms by simp
  qed
qed

lemma rsorted_single: "b \<le> a + 1 \<Longrightarrow> rsorted f xs a b"
  unfolding rsorted_def
proof (intro allI impI)
  fix i j assume "b \<le> a + 1" "a \<le> i \<and> i \<le> j \<and> j < b"
  then have "i = j" by arith
  then show "f (xs ! i) \<le> f (xs ! j)" by simp
qed

lemma rsorted_extend:
  assumes "rsorted f xs a i" "a < i" "f (xs ! (i - 1)) \<le> f (xs ! i)"
  shows "rsorted f xs a (i + 1)"
  unfolding rsorted_def
proof (intro allI impI)
  fix p q assume pq: "a \<le> p \<and> p \<le> q \<and> q < i + 1"
  show "f (xs ! p) \<le> f (xs ! q)"
  proof (cases "q = i")
    case False
    with pq assms(1) show ?thesis by (simp add: rsorted_def)
  next
    case True
    show ?thesis
    proof (cases "p = i")
      case True
      with \<open>q = i\<close> show ?thesis by simp
    next
      case False
      then have "a \<le> p \<and> p \<le> i - 1 \<and> i - 1 < i" using pq True assms(2) by arith
      then have "f (xs ! p) \<le> f (xs ! (i - 1))"
        using assms(1) unfolding rsorted_def by blast
      with assms(3) True show ?thesis by simp
    qed
  qed
qed

lemma skipSorted_spec:
  fixes f :: "'a \<Rightarrow> 'k::linorder"
  assumes "a < i" "i \<le> b" "rsorted f xs a i"
  shows "i \<le> skipSorted (keyLess f) xs b i \<and> skipSorted (keyLess f) xs b i \<le> b
       \<and> rsorted f xs a (skipSorted (keyLess f) xs b i)"
  using assms
proof (induction "b - i" arbitrary: i rule: less_induct)
  case less
  show ?case
  proof (cases "i < b \<and> \<not> f (xs ! i) < f (xs ! (i - 1))")
    case True
    have e: "skipSorted (keyLess f) xs b i = skipSorted (keyLess f) xs b (i + 1)"
      using True by (subst skipSorted.simps) simp
    have "i + 1 \<le> skipSorted (keyLess f) xs b (i + 1)
       \<and> skipSorted (keyLess f) xs b (i + 1) \<le> b
       \<and> rsorted f xs a (skipSorted (keyLess f) xs b (i + 1))"
    proof (rule less.hyps)
      show "b - (i + 1) < b - i" using True by arith
      show "a < i + 1" using less.prems by simp
      show "i + 1 \<le> b" using True by simp
      show "rsorted f xs a (i + 1)" using less.prems True by (intro rsorted_extend) auto
    qed
    then show ?thesis unfolding e by simp
  next
    case False
    then have e: "skipSorted (keyLess f) xs b i = i" by (subst skipSorted.simps) auto
    show ?thesis unfolding e using less.prems by simp
  qed
qed

lemma shiftLeft_insertDown:
  assumes "a \<le> j" "j < length xs" "0 < a \<longrightarrow> \<not> lt (xs ! j) (xs ! (a - 1))"
  shows "shiftLeft lt xs j = insertDown lt xs a j"
  using assms
proof (induction "j - a" arbitrary: xs j)
  case 0
  then have ja: "j = a" by simp
  have "shiftLeft lt xs a = xs" using "0.prems" ja by (subst shiftLeft.simps) auto
  moreover have "insertDown lt xs a a = xs" by (subst insertDown.simps) simp
  ultimately show ?case using ja by simp
next
  case (Suc n)
  then have ja: "a < j" by simp
  show ?case
  proof (cases "lt (xs ! j) (xs ! (j - 1))")
    case True
    let ?xs = "swap xs j (j - 1)"
    have "shiftLeft lt ?xs (j - 1) = insertDown lt ?xs a (j - 1)"
    proof (rule Suc.hyps(1))
      show "n = j - 1 - a" using Suc.hyps(2) by simp
      show "a \<le> j - 1" using ja by simp
      show "j - 1 < length ?xs" using Suc.prems by simp
      have "a - 1 \<noteq> j" "0 < a \<longrightarrow> a - 1 \<noteq> j - 1" "j - 1 < length xs"
        using ja Suc.prems(2) by arith+
      then show "0 < a \<longrightarrow> \<not> lt (?xs ! (j - 1)) (?xs ! (a - 1))"
        using Suc.prems by (simp add: swap_nth)
    qed
    moreover have "shiftLeft lt xs j = shiftLeft lt ?xs (j - 1)"
      using True ja by (subst shiftLeft.simps) simp
    moreover have "insertDown lt xs a j = insertDown lt ?xs a (j - 1)"
      using True ja by (subst insertDown.simps) simp
    ultimately show ?thesis by simp
  next
    case False
    have "shiftLeft lt xs j = xs" using False by (subst shiftLeft.simps) simp
    moreover have "insertDown lt xs a j = xs" using False by (subst insertDown.simps) simp
    ultimately show ?thesis by simp
  qed
qed

lemma insertDown_range:
  assumes "a \<le> j" "j < length xs"
  shows "insertDown lt xs a j
       = take a xs @ insertLast lt (seg xs a j) (xs ! j) @ drop (j + 1) xs"
proof -
  have "insertDown lt (take a xs @ seg xs a j @ xs ! j # drop (j + 1) xs)
          (length (take a xs)) (length (take a xs) + length (seg xs a j))
        = take a xs @ insertLast lt (seg xs a j) (xs ! j) @ drop (j + 1) xs"
    by (rule insertDown_append)
  moreover have "length (take a xs) = a" "length (take a xs) + length (seg xs a j) = j"
    using assms by simp_all
  moreover have "take a xs @ seg xs a j @ xs ! j # drop (j + 1) xs = xs"
    using split_range[of a j xs] assms by (simp add: Cons_nth_drop_Suc)
  ultimately show ?thesis by simp
qed

lemma insertDown_sorted:
  fixes f :: "'a \<Rightarrow> 'k::linorder"
  assumes "a \<le> j" "j < length xs" "rsorted f xs a j"
  shows "rperm xs (insertDown (keyLess f) xs a j) a (j + 1)"
    and "rsorted f (insertDown (keyLess f) xs a j) a (j + 1)"
proof -
  let ?S = "insertLast (keyLess f) (seg xs a j) (xs ! j)"
  have "take (Suc (j - a)) (drop a xs) = take (j - a) (drop a xs) @ [drop a xs ! (j - a)]"
    using assms by (intro take_Suc_conv_app_nth) simp
  then have sg: "seg xs a (j + 1) = seg xs a j @ [xs ! j]"
    using assms by (simp add: Suc_diff_le)
  have m: "mset ?S = mset (seg xs a (j + 1))" unfolding sg by simp
  have "sorted (map f (seg xs a j))" using assms rsorted_seg[of a j xs f] by simp
  then have s: "sorted (map f ?S)"
    using sorted_insRev[of f "rev (seg xs a j)" "xs ! j"] by (simp add: insertLast_def)
  have ab: "a \<le> j + 1" "j + 1 \<le> length xs" using assms by simp_all
  have e: "insertDown (keyLess f) xs a j = take a xs @ ?S @ drop (j + 1) xs"
    using assms(1,2) by (rule insertDown_range)
  show "rperm xs (insertDown (keyLess f) xs a j) a (j + 1)"
    unfolding e by (rule replace_range(1)[OF ab m])
  show "rsorted f (insertDown (keyLess f) xs a j) a (j + 1)"
    unfolding e by (rule replace_range(2)[OF ab m s])
qed

lemma shiftRight_rperm:
  "lo < j \<Longrightarrow> b \<le> length xs \<Longrightarrow> rperm xs (shiftRight lt xs b j) lo b"
proof (induction lt xs b j rule: shiftRight.induct)
  case (1 lt xs b j)
  show ?case
  proof (cases "j < b \<and> lt (xs ! j) (xs ! (j - 1))")
    case True
    have "rperm xs (swap xs j (j - 1)) lo b" using "1.prems" True by (intro rperm_swap) auto
    moreover have "rperm (swap xs j (j - 1)) (shiftRight lt (swap xs j (j - 1)) b (j + 1)) lo b"
      using "1.IH"[OF True] "1.prems" by simp
    moreover have "shiftRight lt xs b j = shiftRight lt (swap xs j (j - 1)) b (j + 1)"
      using True by (subst shiftRight.simps) simp
    ultimately show ?thesis using rperm_trans by metis
  next
    case False
    then have "shiftRight lt xs b j = xs" by (subst shiftRight.simps) auto
    then show ?thesis by simp
  qed
qed

lemma partialInsertionLoop_spec:
  fixes f :: "'a \<Rightarrow> 'k::linorder"
  assumes "a < i" "i \<le> b" "b \<le> length xs" "rsorted f xs a i" "lowB f xs a b"
    and "partialInsertionLoop (keyLess f) xs a b i steps = (ys, dn)"
  shows "rperm xs ys a b \<and> (dn \<longrightarrow> rsorted f ys a b)"
  using assms
proof (induction steps arbitrary: xs i)
  case 0
  then show ?case by simp
next
  case (Suc steps)
  define i' where "i' = skipSorted (keyLess f) xs b i"
  have sk: "i \<le> i'" "i' \<le> b" "rsorted f xs a i'"
    using skipSorted_spec[OF Suc.prems(1,2,4)] by (simp_all add: i'_def)
  show ?case
  proof (cases "i' = b")
    case True
    then have "ys = xs" "dn" using Suc.prems(6) by (simp_all add: i'_def Let_def)
    with sk True show ?thesis by simp
  next
    case nb: False
    show ?thesis
    proof (cases "b - a < 50")
      case True
      then have "ys = xs" "\<not> dn" using Suc.prems(6) nb by (simp_all add: i'_def Let_def)
      then show ?thesis by simp
    next
      case False
      define xs1 where "xs1 = swap xs i' (i' - 1)"
      define xs2 where "xs2 = (if i' - a \<ge> 2 then shiftLeft (keyLess f) xs1 (i' - 1) else xs1)"
      define xs3 where "xs3 = (if b - i' \<ge> 2 then shiftRight (keyLess f) xs2 b (i' + 1) else xs2)"
      have rec: "partialInsertionLoop (keyLess f) xs3 a b i' steps = (ys, dn)"
        using Suc.prems(6) nb False unfolding xs3_def xs2_def xs1_def i'_def
        by (auto simp: Let_def split: if_splits)
      have ib: "a < i'" "i' < b" using sk nb Suc.prems(1) by simp_all
      have len: "b \<le> length xs" by (rule Suc.prems(3))
      have r1: "rperm xs xs1 a b"
        unfolding xs1_def using ib len by (intro rperm_swap) simp_all
      have l1: "length xs1 = length xs" by (simp add: xs1_def)
      have lb1: "lowB f xs1 a b"
        using lowB_rperm[OF r1 _ len Suc.prems(5)] ib by simp
      have s1: "rsorted f xs1 a (i' - 1)"
        unfolding rsorted_def
      proof (intro allI impI)
        fix p q assume "a \<le> p \<and> p \<le> q \<and> q < i' - 1"
        then have pq: "a \<le> p" "p \<le> q" "q < i' - 1" by simp_all
        have "p \<noteq> i'" "p \<noteq> i' - 1" "q \<noteq> i'" "q \<noteq> i' - 1" "i' < length xs"
          "i' - 1 < length xs"
          using pq ib len by arith+
        then have "xs1 ! p = xs ! p" "xs1 ! q = xs ! q"
          by (simp_all add: xs1_def swap_nth)
        moreover have "a \<le> p \<and> p \<le> q \<and> q < i'" using pq by arith
        then have "f (xs ! p) \<le> f (xs ! q)" using sk(3) unfolding rsorted_def by blast
        ultimately show "f (xs1 ! p) \<le> f (xs1 ! q)" by simp
      qed
      have r2s2: "rperm xs1 xs2 a i' \<and> rsorted f xs2 a i'"
      proof (cases "i' - a \<ge> 2")
        case True
        have "a \<le> i' - 1 \<and> i' - 1 < b" using ib by arith
        then have "0 < a \<longrightarrow> f (xs1 ! (a - 1)) \<le> f (xs1 ! (i' - 1))"
          using lb1 unfolding lowB_def by blast
        then have c: "0 < a \<longrightarrow> \<not> f (xs1 ! (i' - 1)) < f (xs1 ! (a - 1))"
          by (simp add: not_less)
        have j: "a \<le> i' - 1" "i' - 1 < length xs1" using ib len l1 by simp_all
        have e: "xs2 = insertDown (keyLess f) xs1 a (i' - 1)"
          using True shiftLeft_insertDown[of a "i' - 1" xs1 "keyLess f"] j c
          by (simp add: xs2_def)
        show ?thesis
          unfolding e using insertDown_sorted[OF j s1] ib by simp
      next
        case False
        then have "i' \<le> a + 1" by simp
        then have "rsorted f xs1 a i'" by (rule rsorted_single)
        with False show ?thesis by (simp add: xs2_def)
      qed
      have l2: "length xs2 = length xs" by (simp add: xs2_def l1)
      have r3: "rperm xs2 xs3 i' b"
      proof (cases "b - i' \<ge> 2")
        case True
        then show ?thesis
          unfolding xs3_def using shiftRight_rperm[of i' "i' + 1" b xs2 "keyLess f"] len l2
          by simp
      next
        case False
        then show ?thesis by (simp add: xs3_def)
      qed
      have l3: "length xs3 = length xs" by (simp add: xs3_def l2)
      have s3: "rsorted f xs3 a i'"
        using r2s2 rperm_outside[OF r3] by (simp add: rsorted_def)
      have r12: "rperm xs1 xs2 a b" using r2s2 ib rperm_mono[of xs1 xs2 a i' a b] by simp
      have r23: "rperm xs2 xs3 a b" using r3 ib rperm_mono[of xs2 xs3 i' b a b] by simp
      have r: "rperm xs xs3 a b" using r1 r12 r23 rperm_trans by metis
      have lb3: "lowB f xs3 a b" using lowB_rperm[OF r _ len Suc.prems(5)] ib by simp
      have ih: "rperm xs3 ys a b \<and> (dn \<longrightarrow> rsorted f ys a b)"
      proof (rule Suc.IH)
        show "a < i'" by (rule ib(1))
        show "i' \<le> b" by (rule sk(2))
        show "b \<le> length xs3" using len l3 by simp
        show "rsorted f xs3 a i'" by (rule s3)
        show "lowB f xs3 a b" by (rule lb3)
        show "partialInsertionLoop (keyLess f) xs3 a b i' steps = (ys, dn)" by (rule rec)
      qed
      with r show ?thesis using rperm_trans by blast
    qed
  qed
qed

lemma partialInsertionSort_spec:
  fixes f :: "'a \<Rightarrow> 'k::linorder"
  assumes "a < b" "b \<le> length xs" "lowB f xs a b"
    and "partialInsertionSort (keyLess f) xs a b = (ys, dn)"
  shows "rperm xs ys a b \<and> (dn \<longrightarrow> rsorted f ys a b)"
proof (rule partialInsertionLoop_spec)
  show "a < a + 1" by simp
  show "a + 1 \<le> b" using assms(1) by simp
  show "b \<le> length xs" by (rule assms(2))
  show "rsorted f xs a (a + 1)" by (rule rsorted_single) simp
  show "lowB f xs a b" by (rule assms(3))
  show "partialInsertionLoop (keyLess f) xs a b (a + 1) 5 = (ys, dn)"
    using assms(4) by (simp add: partialInsertionSort_def)
qed

subsection \<open>The preparation as a whole\<close>

lemma pdqPrepare_spec:
  fixes f :: "'a \<Rightarrow> 'k::linorder"
  assumes "a < b" "b \<le> length xs" "lowB f xs a b"
    and "pdqPrepare next (keyLess f) xs a b limit wb wp = (xs1, pivot, limit1, dn)"
  shows "rperm xs xs1 a b \<and> a \<le> pivot \<and> pivot < b \<and> (dn \<longrightarrow> rsorted f xs1 a b)"
proof -
  define ys where "ys = (if \<not> wb then breakPatterns next xs a b else xs)"
  have ry: "rperm xs ys a b"
    using breakPatterns_rperm[of a b xs "next"] assms(1,2) by (simp add: ys_def)
  have ly: "length ys = length xs" by (simp add: ys_def)
  obtain p h where cp: "choosePivot (keyLess f) ys a b = (p, h)" by fastforce
  have pb: "a \<le> p \<and> p < b" using choosePivot_bounds[OF assms(1) cp] .
  define zs where "zs = (if h = decreasingHint then reverseRange ys a b else ys)"
  define p' where "p' = (if h = decreasingHint then (b - 1) - (p - a) else p)"
  define h' where "h' = (if h = decreasingHint then increasingHint else h)"
  have rz: "rperm ys zs a b"
    using reverseRange_rperm[of a b ys] assms(1,2) ly by (simp add: zs_def)
  have lz: "length zs = length xs" by (simp add: zs_def ly)
  have rxz: "rperm xs zs a b" using ry rz by (rule rperm_trans)
  have pb': "a \<le> p' \<and> p' < b" using pb by (auto simp: p'_def)
  have lbz: "lowB f zs a b" using lowB_rperm[OF rxz _ assms(2,3)] assms(1) by simp
  show ?thesis
  proof (cases "wb \<and> wp \<and> h' = increasingHint")
    case True
    obtain ws d where pi: "partialInsertionSort (keyLess f) zs a b = (ws, d)" by fastforce
    have e: "xs1 = ws" "pivot = p'" "dn = d"
      using assms(4) cp True pi
      by (auto simp: pdqPrepare_def Let_def ys_def zs_def p'_def h'_def split: if_splits)
    have "rperm zs ws a b \<and> (d \<longrightarrow> rsorted f ws a b)"
      using partialInsertionSort_spec[OF assms(1) _ lbz pi] lz assms(2) by simp
    with rxz pb' show ?thesis unfolding e using rperm_trans by blast
  next
    case False
    have e: "xs1 = zs" "pivot = p'" "\<not> dn"
      using assms(4) cp False
      by (auto simp: pdqPrepare_def Let_def ys_def zs_def p'_def h'_def split: if_splits)
    with rxz pb' show ?thesis by simp
  qed
qed

section \<open>The quicksort sorts\<close>

lemma rsorted_join:
  assumes "rsorted f ys a mid" "rsorted f ys (mid + 1) b"
    and "rangeAll (\<lambda>y. f y \<le> f (ys ! mid)) ys a mid"
    and "rangeAll (\<lambda>y. f (ys ! mid) \<le> f y) ys (mid + 1) b"
  shows "rsorted f ys a b"
  unfolding rsorted_def
proof (intro allI impI)
  fix p q assume "a \<le> p \<and> p \<le> q \<and> q < b"
  then have pq: "a \<le> p" "p \<le> q" "q < b" by simp_all
  consider (L) "q < mid" | (R) "mid < p" | (M) "p \<le> mid" "mid \<le> q" by arith
  then show "f (ys ! p) \<le> f (ys ! q)"
  proof cases
    case L
    then have "a \<le> p \<and> p \<le> q \<and> q < mid" using pq by simp
    then show ?thesis using assms(1) unfolding rsorted_def by blast
  next
    case R
    then have "mid + 1 \<le> p \<and> p \<le> q \<and> q < b" using pq by simp
    then show ?thesis using assms(2) unfolding rsorted_def by blast
  next
    case M
    have "f (ys ! p) \<le> f (ys ! mid)"
    proof (cases "p = mid")
      case False
      then have "a \<le> p \<and> p < mid" using M pq by simp
      then show ?thesis using assms(3) unfolding rangeAll_def by blast
    qed simp
    moreover have "f (ys ! mid) \<le> f (ys ! q)"
    proof (cases "q = mid")
      case False
      then have "mid + 1 \<le> q \<and> q < b" using M pq by simp
      then show ?thesis using assms(4) unfolding rangeAll_def by blast
    qed simp
    ultimately show ?thesis by simp
  qed
qed

lemma rangeAll_outside:
  assumes "rperm xs ys c d" "b \<le> c \<or> d \<le> a" "rangeAll P xs a b"
  shows "rangeAll P ys a b"
  unfolding rangeAll_def
proof (intro allI impI)
  fix i assume i: "a \<le> i \<and> i < b"
  then have "i < c \<or> d \<le> i" using assms(2) by arith
  then have "ys ! i = xs ! i" by (rule rperm_outside[OF assms(1)])
  with assms(3) i show "P (ys ! i)" by (simp add: rangeAll_def)
qed

lemma rsorted_outside:
  assumes "rperm xs ys c d" "b \<le> c \<or> d \<le> a" "rsorted f xs a b"
  shows "rsorted f ys a b"
  unfolding rsorted_def
proof (intro allI impI)
  fix i j assume ij: "a \<le> i \<and> i \<le> j \<and> j < b"
  then have "i < c \<or> d \<le> i" "j < c \<or> d \<le> j" using assms(2) by arith+
  then have "ys ! i = xs ! i" "ys ! j = xs ! j" by (simp_all add: rperm_outside[OF assms(1)])
  moreover have "f (xs ! i) \<le> f (xs ! j)" using assms(3) ij unfolding rsorted_def by blast
  ultimately show "f (ys ! i) \<le> f (ys ! j)" by simp
qed

lemma lowB_outside:
  assumes "rperm xs ys c d" "b \<le> c" "lowB f xs a b"
  shows "lowB f ys a b"
  unfolding lowB_def
proof (intro allI impI)
  fix k assume a: "0 < a" and k: "a \<le> k \<and> k < b"
  then have "a - 1 < c \<or> d \<le> a - 1" "k < c \<or> d \<le> k" using assms(2) by arith+
  then have "ys ! (a - 1) = xs ! (a - 1)" "ys ! k = xs ! k"
    by (simp_all add: rperm_outside[OF assms(1)])
  moreover have "f (xs ! (a - 1)) \<le> f (xs ! k)" using assms(3) a k unfolding lowB_def by blast
  ultimately show "f (ys ! (a - 1)) \<le> f (ys ! k)" by simp
qed

text \<open>After a partition around the element at \<open>mid\<close>, sorting the two sides, in either
  order, sorts the range.\<close>

lemma sorted_sides:
  fixes f :: "'a \<Rightarrow> 'k::linorder"
  assumes "a \<le> mid" "mid < b" "b \<le> length xs"
    and lows: "rangeAll (\<lambda>y. f y \<le> f (xs ! mid)) xs a mid"
    and highs: "rangeAll (\<lambda>y. f (xs ! mid) \<le> f y) xs (mid + 1) b"
    and "rperm xs ys a mid" "rperm xs ys' (mid + 1) b"
    and "(rperm ys zs (mid + 1) b \<and> rsorted f ys a mid \<and> rsorted f zs (mid + 1) b)
         \<or> (rperm ys' zs a mid \<and> rsorted f ys' (mid + 1) b \<and> rsorted f zs a mid)"
  shows "rperm xs zs a b \<and> rsorted f zs a b"
proof -
  have lys: "length ys = length xs" "length ys' = length xs"
    using assms(6,7) by (simp_all add: rperm_length)
  from assms(8) show ?thesis
  proof
    assume h: "rperm ys zs (mid + 1) b \<and> rsorted f ys a mid \<and> rsorted f zs (mid + 1) b"
    have m1: "ys ! mid = xs ! mid" using rperm_outside[OF assms(6), of mid] by simp
    have m2: "zs ! mid = xs ! mid" using rperm_outside[of ys zs "mid + 1" b mid] h m1 by simp
    have "rangeAll (\<lambda>y. f y \<le> f (xs ! mid)) ys a mid"
      using rperm_rangeAll[OF assms(6) assms(1) _ lows] assms(2,3) by simp
    then have l: "rangeAll (\<lambda>y. f y \<le> f (xs ! mid)) zs a mid"
      using rangeAll_outside[of ys zs "mid + 1" b mid a] h by simp
    have "rangeAll (\<lambda>y. f (xs ! mid) \<le> f y) ys (mid + 1) b"
      using rangeAll_outside[OF assms(6) _ highs] by simp
    then have hh: "rangeAll (\<lambda>y. f (xs ! mid) \<le> f y) zs (mid + 1) b"
      using rperm_rangeAll[of ys zs "mid + 1" b] h assms(2,3) lys by simp
    have s: "rsorted f zs a mid"
      using rsorted_outside[of ys zs "mid + 1" b mid a f] h by simp
    have "rsorted f zs a b"
      using rsorted_join[of f zs a mid b] s h l hh m2 by simp
    moreover have "rperm xs ys a b" using assms(6) assms(2) rperm_mono[of xs ys a mid a b] by simp
    moreover have "rperm ys zs a b"
      using h assms(1) rperm_mono[of ys zs "mid + 1" b a b] by simp
    ultimately show ?thesis using rperm_trans by blast
  next
    assume h: "rperm ys' zs a mid \<and> rsorted f ys' (mid + 1) b \<and> rsorted f zs a mid"
    have m1: "ys' ! mid = xs ! mid" using rperm_outside[OF assms(7), of mid] by simp
    have m2: "zs ! mid = xs ! mid" using rperm_outside[of ys' zs a mid mid] h m1 by simp
    have "rangeAll (\<lambda>y. f y \<le> f (xs ! mid)) ys' a mid"
      using rangeAll_outside[OF assms(7) _ lows] by simp
    then have l: "rangeAll (\<lambda>y. f y \<le> f (xs ! mid)) zs a mid"
      using rperm_rangeAll[of ys' zs a mid] h assms(1,2,3) lys by simp
    have "rangeAll (\<lambda>y. f (xs ! mid) \<le> f y) ys' (mid + 1) b"
      using rperm_rangeAll[OF assms(7) _ assms(3) highs] assms(2) by simp
    then have hh: "rangeAll (\<lambda>y. f (xs ! mid) \<le> f y) zs (mid + 1) b"
      using rangeAll_outside[of ys' zs a mid b "mid + 1"] h by simp
    have s: "rsorted f zs (mid + 1) b"
      using rsorted_outside[of ys' zs a mid b "mid + 1" f] h by simp
    have "rsorted f zs a b"
      using rsorted_join[of f zs a mid b] s h l hh m2 by simp
    moreover have "rperm xs ys' a b"
      using assms(7) assms(1) rperm_mono[of xs ys' "mid + 1" b a b] by simp
    moreover have "rperm ys' zs a b" using h assms(2) rperm_mono[of ys' zs a mid a b] by simp
    ultimately show ?thesis using rperm_trans by blast
  qed
qed

text \<open>Every round of the quicksort, on a range whose elements are not below the element
  before the range, leaves the range sorted and everything outside it in place.\<close>

lemma pdqsort_correct_rounds:
  fixes f :: "'a \<Rightarrow> 'k::linorder"
  shows "lt = keyLess f \<longrightarrow> a \<le> b \<and> b \<le> length xs \<and> lowB f xs a b \<longrightarrow>
     rperm xs (pdqsort next lt xs a b limit wb wp) a b
     \<and> rsorted f (pdqsort next lt xs a b limit wb wp) a b"
proof (induct "next" lt xs a b limit wb wp rule: pdqsort_rounds)
  case (small "next" lt xs a b limit wb wp)
  show ?case
  proof (intro impI)
    assume L: "lt = keyLess f" and p: "a \<le> b \<and> b \<le> length xs \<and> lowB f xs a b"
    show "rperm xs (pdqsort next lt xs a b limit wb wp) a b
        \<and> rsorted f (pdqsort next lt xs a b limit wb wp) a b"
      unfolding pdqsort_small[OF small] L using insertionSort_correct[of a b xs f] p by simp
  qed
next
  case (heap "next" lt xs a b limit wb wp)
  show ?case
  proof (intro impI)
    assume L: "lt = keyLess f" and p: "a \<le> b \<and> b \<le> length xs \<and> lowB f xs a b"
    show "rperm xs (pdqsort next lt xs a b limit wb wp) a b
        \<and> rsorted f (pdqsort next lt xs a b limit wb wp) a b"
      unfolding pdqsort_heap[OF heap] L using heapSort_correct[of a b xs f] p by simp
  qed
next
  case (finished "next" lt xs a b limit wb wp xs1 pivot limit1)
  show ?case
  proof (intro impI)
    assume L: "lt = keyLess f" and p: "a \<le> b \<and> b \<le> length xs \<and> lowB f xs a b"
    have ab: "a < b" using finished(1) by simp
    have pr: "pdqPrepare next (keyLess f) xs a b limit wb wp = (xs1, pivot, limit1, True)"
      using finished(3) L by simp
    have "rperm xs xs1 a b \<and> a \<le> pivot \<and> pivot < b \<and> (True \<longrightarrow> rsorted f xs1 a b)"
      using pdqPrepare_spec[OF ab _ _ pr] p by simp
    then show "rperm xs (pdqsort next lt xs a b limit wb wp) a b
        \<and> rsorted f (pdqsort next lt xs a b limit wb wp) a b"
      unfolding pdqsort_done[OF finished] by simp
  qed
next
  case (equal "next" lt xs a b limit wb wp xs1 pivot limit1 xs2 mid)
  show ?case
  proof (intro impI)
    assume L: "lt = keyLess f" and p: "a \<le> b \<and> b \<le> length xs \<and> lowB f xs a b"
    let ?R = "pdqsort next lt xs2 mid b limit1 wb wp"
    have ab: "a < b" using equal(1) by simp
    have len: "b \<le> length xs" using p by simp
    have pr: "pdqPrepare next (keyLess f) xs a b limit wb wp = (xs1, pivot, limit1, False)"
      using equal(3) L by simp
    have ps: "rperm xs xs1 a b" "a \<le> pivot" "pivot < b"
      using pdqPrepare_spec[OF ab _ _ pr] p by simp_all
    have l1: "length xs1 = length xs" using ps(1) by (rule rperm_length)
    have lb1: "lowB f xs1 a b" using lowB_rperm[where f=f, OF ps(1) _ len] p by simp
    have pe: "partitionEqual (keyLess f) xs1 a b pivot = (xs2, mid)" using equal(5) L by simp
    have es: "rperm xs1 xs2 a b \<and> a < mid \<and> mid \<le> b \<and> xs2 ! a = xs1 ! pivot
       \<and> (\<forall>k. a < k \<and> k < mid \<longrightarrow> \<not> f (xs2 ! a) < f (xs2 ! k))
       \<and> (\<forall>k. mid \<le> k \<and> k < b \<longrightarrow> f (xs2 ! a) < f (xs2 ! k))"
      using l1 len by (intro partitionEqual_spec[OF ab _ ps(2,3) pe]) simp
    then have r2: "rperm xs1 xs2 a b" and mb: "a < mid" "mid \<le> b" by simp_all
    have l2: "length xs2 = length xs" using rperm_length[OF r2] l1 by simp
    have lb2: "lowB f xs2 a b" using lowB_rperm[OF r2 _ _ lb1] ab l1 len by simp
    have a0: "0 < a" using equal(4) by simp
    define F where "F = f (xs2 ! (a - 1))"
    have "xs2 ! (a - 1) = xs1 ! (a - 1)" using rperm_outside[OF r2, of "a - 1"] a0 by simp
    then have top: "f (xs2 ! a) \<le> F" using equal(4) es L by (simp add: F_def not_less)
    have left: "f (xs2 ! k) \<le> F" if "a \<le> k" "k < mid" for k
    proof (cases "k = a")
      case True
      with top show ?thesis by simp
    next
      case False
      then have "a < k \<and> k < mid" using that by simp
      then have "\<not> f (xs2 ! a) < f (xs2 ! k)" using es by blast
      with top show ?thesis by simp
    qed
    have above: "F \<le> f (xs2 ! k)" if "a \<le> k" "k < b" for k
      using lb2 a0 that unfolding lowB_def F_def by blast
    have lbm: "lowB f xs2 mid b"
      unfolding lowB_def
    proof (intro allI impI)
      fix k assume "0 < mid" and k: "mid \<le> k \<and> k < b"
      have "f (xs2 ! (mid - 1)) \<le> F" using left[of "mid - 1"] mb by simp
      moreover have "F \<le> f (xs2 ! k)" using above[of k] k mb by simp
      ultimately show "f (xs2 ! (mid - 1)) \<le> f (xs2 ! k)" by simp
    qed
    have ih: "rperm xs2 ?R mid b \<and> rsorted f ?R mid b"
      using equal(6) L mb l2 len lbm by simp
    then have r3: "rperm xs2 ?R a b" using mb rperm_mono[of xs2 ?R mid b a b] by simp
    have lbR: "lowB f ?R a b" using lowB_rperm[OF r3 _ _ lb2] ab l2 len by simp
    have "?R ! (a - 1) = xs2 ! (a - 1)" using rperm_outside[OF r3, of "a - 1"] a0 by simp
    then have aboveR: "F \<le> f (?R ! k)" if "a \<le> k" "k < b" for k
      using lbR a0 that unfolding lowB_def F_def by auto
    have leftR: "f (?R ! k) \<le> F" if "a \<le> k" "k < mid" for k
    proof -
      have "?R ! k = xs2 ! k" using ih rperm_outside[of xs2 ?R mid b k] that by simp
      with left[OF that] show ?thesis by simp
    qed
    have "rsorted f ?R a b"
      unfolding rsorted_def
    proof (intro allI impI)
      fix i j assume "a \<le> i \<and> i \<le> j \<and> j < b"
      then have ij: "a \<le> i" "i \<le> j" "j < b" by simp_all
      show "f (?R ! i) \<le> f (?R ! j)"
      proof (cases "mid \<le> i")
        case True
        then have "mid \<le> i \<and> i \<le> j \<and> j < b" using ij by simp
        then show ?thesis using ih unfolding rsorted_def by blast
      next
        case False
        then have "f (?R ! i) \<le> F" using leftR[of i] ij by simp
        moreover have "F \<le> f (?R ! j)" using aboveR[of j] ij by simp
        ultimately show ?thesis by simp
      qed
    qed
    moreover have "rperm xs ?R a b" using ps(1) r2 r3 rperm_trans by blast
    ultimately show "rperm xs (pdqsort next lt xs a b limit wb wp) a b
        \<and> rsorted f (pdqsort next lt xs a b limit wb wp) a b"
      unfolding pdqsort_equal[OF equal(1,2,3,4,5)] by simp
  qed
next
  case (left "next" lt xs a b limit wb wp xs1 pivot limit1 xs2 mid ap)
  show ?case
  proof (intro impI)
    assume L: "lt = keyLess f" and p: "a \<le> b \<and> b \<le> length xs \<and> lowB f xs a b"
    let ?Y = "pdqsort next lt xs2 a mid limit1 True True"
    let ?Z = "pdqsort next lt ?Y (mid + 1) b limit1 (mid - a \<ge> (b - a) div 8) ap"
    have ab: "a < b" using left(1) by simp
    have len: "b \<le> length xs" using p by simp
    have pr: "pdqPrepare next (keyLess f) xs a b limit wb wp = (xs1, pivot, limit1, False)"
      using left(3) L by simp
    have ps: "rperm xs xs1 a b" "a \<le> pivot" "pivot < b"
      using pdqPrepare_spec[OF ab _ _ pr] p by simp_all
    have l1: "length xs1 = length xs" using ps(1) by (rule rperm_length)
    have lb1: "lowB f xs1 a b" using lowB_rperm[where f=f, OF ps(1) _ len] p by simp
    have pt: "partition (keyLess f) xs1 a b pivot = (xs2, mid, ap)" using left(5) L by simp
    have es: "rperm xs1 xs2 a b \<and> a \<le> mid \<and> mid < b
       \<and> (\<forall>k. a \<le> k \<and> k < mid \<longrightarrow> f (xs2 ! k) < f (xs2 ! mid))
       \<and> (\<forall>k. mid < k \<and> k < b \<longrightarrow> \<not> f (xs2 ! k) < f (xs2 ! mid))"
      using l1 len by (intro partition_spec[OF ab _ ps(2,3) pt]) simp
    then have r2: "rperm xs1 xs2 a b" and mb: "a \<le> mid" "mid < b" by simp_all
    have l2: "length xs2 = length xs" using rperm_length[OF r2] l1 by simp
    have lb2: "lowB f xs2 a b" using lowB_rperm[OF r2 _ _ lb1] ab l1 len by simp
    have lows: "rangeAll (\<lambda>y. f y \<le> f (xs2 ! mid)) xs2 a mid"
      using es by (auto simp: rangeAll_def less_imp_le)
    have highs: "rangeAll (\<lambda>y. f (xs2 ! mid) \<le> f y) xs2 (mid + 1) b"
      using es by (auto simp: rangeAll_def not_less)
    have ih1: "rperm xs2 ?Y a mid \<and> rsorted f ?Y a mid"
      using left(7) L mb l2 len lowB_mono[OF lb2, of mid] by simp
    have lY: "length ?Y = length xs" using l2 by simp
    have "lowB f xs2 (mid + 1) b" using highs by (simp add: lowB_def rangeAll_def)
    then have lbY: "lowB f ?Y (mid + 1) b"
      unfolding lowB_def using ih1 rperm_outside[of xs2 ?Y a mid] by simp
    have ih2: "rperm ?Y ?Z (mid + 1) b \<and> rsorted f ?Z (mid + 1) b"
      using left(8) L mb lY len lbY by simp
    have "rperm xs2 ?Z a b \<and> rsorted f ?Z a b"
    proof (rule sorted_sides[of a mid b xs2 f ?Y xs2 ?Z])
      show "a \<le> mid" "mid < b" by (rule mb)+
      show "b \<le> length xs2" using l2 len by simp
      show "rangeAll (\<lambda>y. f y \<le> f (xs2 ! mid)) xs2 a mid" by (rule lows)
      show "rangeAll (\<lambda>y. f (xs2 ! mid) \<le> f y) xs2 (mid + 1) b" by (rule highs)
      show "rperm xs2 ?Y a mid" using ih1 by simp
      show "rperm xs2 xs2 (mid + 1) b" by simp
      show "(rperm ?Y ?Z (mid + 1) b \<and> rsorted f ?Y a mid \<and> rsorted f ?Z (mid + 1) b)
         \<or> (rperm xs2 ?Z a mid \<and> rsorted f xs2 (mid + 1) b \<and> rsorted f ?Z a mid)"
        using ih1 ih2 by simp
    qed
    moreover have "rperm xs xs2 a b" using ps(1) r2 by (rule rperm_trans)
    ultimately show "rperm xs (pdqsort next lt xs a b limit wb wp) a b
        \<and> rsorted f (pdqsort next lt xs a b limit wb wp) a b"
      unfolding pdqsort_left[OF left(1,2,3,4,5,6)] using rperm_trans by blast
  qed
next
  case (right "next" lt xs a b limit wb wp xs1 pivot limit1 xs2 mid ap)
  show ?case
  proof (intro impI)
    assume L: "lt = keyLess f" and p: "a \<le> b \<and> b \<le> length xs \<and> lowB f xs a b"
    let ?Y = "pdqsort next lt xs2 (mid + 1) b limit1 True True"
    let ?Z = "pdqsort next lt ?Y a mid limit1 (b - mid \<ge> (b - a) div 8) ap"
    have ab: "a < b" using right(1) by simp
    have len: "b \<le> length xs" using p by simp
    have pr: "pdqPrepare next (keyLess f) xs a b limit wb wp = (xs1, pivot, limit1, False)"
      using right(3) L by simp
    have ps: "rperm xs xs1 a b" "a \<le> pivot" "pivot < b"
      using pdqPrepare_spec[OF ab _ _ pr] p by simp_all
    have l1: "length xs1 = length xs" using ps(1) by (rule rperm_length)
    have lb1: "lowB f xs1 a b" using lowB_rperm[where f=f, OF ps(1) _ len] p by simp
    have pt: "partition (keyLess f) xs1 a b pivot = (xs2, mid, ap)" using right(5) L by simp
    have es: "rperm xs1 xs2 a b \<and> a \<le> mid \<and> mid < b
       \<and> (\<forall>k. a \<le> k \<and> k < mid \<longrightarrow> f (xs2 ! k) < f (xs2 ! mid))
       \<and> (\<forall>k. mid < k \<and> k < b \<longrightarrow> \<not> f (xs2 ! k) < f (xs2 ! mid))"
      using l1 len by (intro partition_spec[OF ab _ ps(2,3) pt]) simp
    then have r2: "rperm xs1 xs2 a b" and mb: "a \<le> mid" "mid < b" by simp_all
    have l2: "length xs2 = length xs" using rperm_length[OF r2] l1 by simp
    have lb2: "lowB f xs2 a b" using lowB_rperm[OF r2 _ _ lb1] ab l1 len by simp
    have lows: "rangeAll (\<lambda>y. f y \<le> f (xs2 ! mid)) xs2 a mid"
      using es by (auto simp: rangeAll_def less_imp_le)
    have highs: "rangeAll (\<lambda>y. f (xs2 ! mid) \<le> f y) xs2 (mid + 1) b"
      using es by (auto simp: rangeAll_def not_less)
    have "lowB f xs2 (mid + 1) b" using highs by (simp add: lowB_def rangeAll_def)
    then have ih1: "rperm xs2 ?Y (mid + 1) b \<and> rsorted f ?Y (mid + 1) b"
      using right(7) L mb l2 len by simp
    have lY: "length ?Y = length xs" using l2 by simp
    have lbY: "lowB f ?Y a mid"
      using lowB_outside[of xs2 ?Y "mid + 1" b mid f a] ih1 lowB_mono[OF lb2, of mid] mb
      by simp
    have ih2: "rperm ?Y ?Z a mid \<and> rsorted f ?Z a mid"
      using right(8) L mb lY len lbY by simp
    have "rperm xs2 ?Z a b \<and> rsorted f ?Z a b"
    proof (rule sorted_sides[of a mid b xs2 f xs2 ?Y ?Z])
      show "a \<le> mid" "mid < b" by (rule mb)+
      show "b \<le> length xs2" using l2 len by simp
      show "rangeAll (\<lambda>y. f y \<le> f (xs2 ! mid)) xs2 a mid" by (rule lows)
      show "rangeAll (\<lambda>y. f (xs2 ! mid) \<le> f y) xs2 (mid + 1) b" by (rule highs)
      show "rperm xs2 xs2 a mid" by simp
      show "rperm xs2 ?Y (mid + 1) b" using ih1 by simp
      show "(rperm xs2 ?Z (mid + 1) b \<and> rsorted f xs2 a mid \<and> rsorted f ?Z (mid + 1) b)
         \<or> (rperm ?Y ?Z a mid \<and> rsorted f ?Y (mid + 1) b \<and> rsorted f ?Z a mid)"
        using ih1 ih2 by simp
    qed
    moreover have "rperm xs xs2 a b" using ps(1) r2 by (rule rperm_trans)
    ultimately show "rperm xs (pdqsort next lt xs a b limit wb wp) a b
        \<and> rsorted f (pdqsort next lt xs a b limit wb wp) a b"
      unfolding pdqsort_right[OF right(1,2,3,4,5,6)] using rperm_trans by blast
  qed
qed

text \<open>\<^verbatim>\<open>sort.Slice\<close> with a comparison by a key returns a rearrangement of the slice in
  which the keys ascend, whatever the pseudo-random generator does.\<close>

lemma sort_Slice_mset:
  fixes f :: "'a \<Rightarrow> 'k::linorder"
  shows "mset (sort_Slice next (keyLess f) xs) = mset xs"
  using pdqsort_correct_rounds[of "keyLess f" f 0 "length xs" xs "next" "bitsLen (length xs)" True True]
  by (simp add: sort_Slice_def lowB_def rperm_def)

lemma sort_Slice_sorted:
  fixes f :: "'a \<Rightarrow> 'k::linorder"
  shows "sorted (map f (sort_Slice next (keyLess f) xs))"
proof -
  have "rsorted f (sort_Slice next (keyLess f) xs) 0 (length (sort_Slice next (keyLess f) xs))"
    using pdqsort_correct_rounds[of "keyLess f" f 0 "length xs" xs "next" "bitsLen (length xs)" True True]
    by (simp add: sort_Slice_def lowB_def)
  then show ?thesis
    using rsorted_seg[of 0 "length (sort_Slice next (keyLess f) xs)"
        "sort_Slice next (keyLess f) xs" f]
    by simp
qed

section \<open>The order of the ranked records\<close>

text \<open>Thirteen records, the first twelve scored 5 and the last scored 9. Records \<open>g\<close> and
  \<open>a\<close> have the same score, and \<open>g\<close>, stored after \<open>a\<close>, is returned before it.\<close>

theorem C5_equal_scores_reordered:
  "RetrieveRelevantMemories xorshift_Next (readyManager store13) (LLMChoices [reply13]) 0
     = Some (Inr (map (\<lambda>c. sampleMemory [c] ''lesson'' []) ''mgcdefahijklb''))"
  by code_simp


text \<open>
  Claim C5 (order of the result). For a store of any size the result is the first records
  of a ranking that rearranges the scored records in descending order of score. When the
  store has at most twelve records, the records of each score moreover come in the order
  they have in the store; for larger stores this fails, as the thirteen records above show.
\<close>

theorem C5_descending_order:
  assumes "unlocked m" "initialized m" "memories m \<noteq> []"
    and "evaluateRelevance resp (memories m) = Inr scores"
  shows "\<exists>ranked.
      RetrieveRelevantMemories next m resp maxResults
        = Some (Inr (map Memory
            (take (if maxResults > 0 \<and> int (length (memories m)) > maxResults
                   then nat maxResults else length (memories m)) ranked)))
      \<and> mset ranked = mset (scoredList (memories m) scores)
      \<and> sorted_wrt (\<lambda>x y. Score y \<le> Score x) ranked
      \<and> (length (memories m) \<le> 12 \<longrightarrow>
           (\<forall>s. filter (\<lambda>x. Score x = s) ranked
                = filter (\<lambda>x. Score x = s) (scoredList (memories m) scores)))"
proof -
  let ?S = "scoredList (memories m) scores"
  let ?R = "sort_Slice next scoreLess ?S"
  have r: "RetrieveRelevantMemories next m resp maxResults
        = Some (Inr (map Memory
            (take (if maxResults > 0 \<and> int (length (memories m)) > maxResults
                   then nat maxResults else length (memories m)) ?R)))"
    by (rule RetrieveRelevantMemories_scored[OF assms])
  have p: "mset ?R = mset ?S"
    unfolding scoreLess_key by (rule sort_Slice_mset)
  have "sorted (map (\<lambda>x. - Score x) ?R)"
    unfolding scoreLess_key by (rule sort_Slice_sorted)
  then have d: "sorted_wrt (\<lambda>x y. Score y \<le> Score x) ?R"
    by (simp add: sorted_map)
  have st: "filter (\<lambda>x. Score x = s) ?R = filter (\<lambda>x. Score x = s) ?S"
    if "length (memories m) \<le> 12" for s
  proof -
    have l: "length scores = length (memories m)"
      using assms(4)
      by (auto simp: evaluateRelevance_def parseScores_positional positionalScores_def
          split: LLMResult.splits list.splits if_splits)
    have "length ?S \<le> 12" using that l by (simp add: scoredList_def)
    then have "?R = sort_key (\<lambda>x. - Score x) ?S"
      unfolding scoreLess_key by (rule sort_Slice_small)
    moreover have "filter (\<lambda>x. - Score x = - s) (sort_key (\<lambda>x. - Score x) ?S)
        = filter (\<lambda>x. - Score x = - s) ?S"
      by (rule sort_key_stable)
    ultimately show ?thesis by simp
  qed
  from r p d st show ?thesis by blast
qed

theorem C5_descending_order_witness:
  "unlocked (readyManager sampleStore) \<and> initialized (readyManager sampleStore)
   \<and> memories (readyManager sampleStore) \<noteq> []
   \<and> evaluateRelevance (LLMChoices [''5'' @ NL @ ''8'' @ NL @ ''5''])
        (memories (readyManager sampleStore)) = Inr [5, 8, 5]
   \<and> length (memories (readyManager sampleStore)) \<le> 12
   \<and> (\<exists>ranked.
        RetrieveRelevantMemories xorshift_Next (readyManager sampleStore)
          (LLMChoices [''5'' @ NL @ ''8'' @ NL @ ''5'']) 0
          = Some (Inr (map Memory (take (length (memories (readyManager sampleStore))) ranked)))
        \<and> mset ranked = mset (scoredList (memories (readyManager sampleStore)) [5, 8, 5])
        \<and> sorted_wrt (\<lambda>x y. Score y \<le> Score x) ranked
        \<and> (\<forall>s. filter (\<lambda>x. Score x = s) ranked
              = filter (\<lambda>x. Score x = s)
                  (scoredList (memories (readyManager sampleStore)) [5, 8, 5])))
   \<and> RetrieveRelevantMemories xorshift_Next (readyManager sampleStore)
        (LLMChoices [''5'' @ NL @ ''8'' @ NL @ ''5'']) 0
       = Some (Inr [sampleMemory ''b'' ''Trend'' [''trend''],
                    sampleMemory ''a'' ''Stop Loss'' [''Risk''],
                    sampleMemory ''c'' ''Loss again'' [''RISK'', ''x'']])"
proof -
  have m: "unlocked (readyManager sampleStore)" "initialized (readyManager sampleStore)"
    "memories (readyManager sampleStore) \<noteq> []"
    by (simp_all add: readyManager_def unlocked_def NewMemoryManager_def sampleStore_def)
  have l: "length (memories (readyManager sampleStore)) \<le> 12"
    by (simp add: readyManager_def NewMemoryManager_def sampleStore_def)
  have e: "evaluateRelevance (LLMChoices [''5'' @ NL @ ''8'' @ NL @ ''5''])
        (memories (readyManager sampleStore)) = Inr [5, 8, 5]"
    by code_simp
  have v: "RetrieveRelevantMemories xorshift_Next (readyManager sampleStore)
        (LLMChoices [''5'' @ NL @ ''8'' @ NL @ ''5'']) 0
       = Some (Inr [sampleMemory ''b'' ''Trend'' [''trend''],
                    sampleMemory ''a'' ''Stop Loss'' [''Risk''],
                    sampleMemory ''c'' ''Loss again'' [''RISK'', ''x'']])"
    by code_simp
  from C5_descending_order[OF m e, of xorshift_Next 0] obtain ranked where
    "RetrieveRelevantMemories xorshift_Next (readyManager sampleStore)
          (LLMChoices [''5'' @ NL @ ''8'' @ NL @ ''5'']) 0
          = Some (Inr (map Memory (take (length (memories (readyManager sampleStore))) ranked)))
     \<and> mset ranked = mset (scoredList (memories (readyManager sampleStore)) [5, 8, 5])
     \<and> sorted_wrt (\<lambda>x y. Score y \<le> Score x) ranked
     \<and> (\<forall>s. filter (\<lambda>x. Score x = s) ranked
              = filter (\<lambda>x. Score x = s)
                  (scoredList (memories (readyManager sampleStore)) [5, 8, 5]))"
    using l by auto
  then show ?thesis using m l e v by blast
qed

end
